theory Spec2Isabelle
  imports Main "HOL-Library.Word" "HOL-Library.Sublist"
begin

section \<open>Go runtime outcomes\<close>

text \<open>
  A Go call either returns or stops the program. The two ways in which the code of
  \<^verbatim>\<open>query/debug.go\<close> can stop are a runtime panic (a nil pointer dereference, an index
  out of range) and the fatal log of \<^verbatim>\<open>x.AssertTruef\<close>, which carries a message.
\<close>

datatype failure = NilDereference | IndexOutOfRange | Fatal string

section \<open>Formatting verbs of \<^verbatim>\<open>fmt\<close>\<close>

text \<open>\<^verbatim>\<open>%d\<close> on a non-negative integer: its decimal digits, most significant first.\<close>

function fmt_d :: "nat \<Rightarrow> string" where
  "fmt_d n = (if n < 10 then [''0123456789'' ! n]
              else fmt_d (n div 10) @ [''0123456789'' ! (n mod 10)])"
  by pat_completeness auto
termination
  by (relation "measure id") auto

declare fmt_d.simps [simp del]

text \<open>\<^verbatim>\<open>%v\<close> on a slice: the elements, each under \<^verbatim>\<open>%v\<close>, separated by one space, in brackets.\<close>

fun join_sp :: "string list \<Rightarrow> string" where
  "join_sp [] = []"
| "join_sp [x] = x"
| "join_sp (x # y # ys) = x @ '' '' @ join_sp (y # ys)"

definition fmt_v_uids :: "64 word list \<Rightarrow> string" where
  "fmt_v_uids us = ''['' @ join_sp (map (\<lambda>u. fmt_d (unat u)) us) @ '']''"

text \<open>
  \<^verbatim>\<open>%q\<close> on a string is \<^verbatim>\<open>strconv.Quote\<close>: the Go-syntax quoted string. It reads the string
  rune by rune. \<open>DecodeRune\<close> is \<^verbatim>\<open>utf8.DecodeRuneInString\<close> on a non-empty string: the
  rune and its width in bytes, or \<open>None\<close> where Go gives the error rune with the width 1
  (a byte that starts no shortest-form encoding of a rune, or an encoding cut short). The
  loop decodes no empty string; the model gives \<open>None\<close> for it.
\<close>

definition continuation :: "char \<Rightarrow> bool" where
  "continuation c \<longleftrightarrow> 0x80 \<le> (of_char c :: nat) \<and> (of_char c :: nat) \<le> 0xBF"

fun DecodeRune :: "string \<Rightarrow> (nat \<times> nat) option" where
  "DecodeRune [] = None"
| "DecodeRune (c # cs) =
     (let b = (of_char c :: nat) in
      if b < 0x80 then Some (b, 1)
      else if b < 0xC2 then None
      else if b < 0xE0 then
        (case cs of
           c1 # _ \<Rightarrow>
             if continuation c1
             then Some ((b mod 0x20) * 0x40 + of_char c1 mod 0x40, 2)
             else None
         | _ \<Rightarrow> None)
      else if b < 0xF0 then
        (case cs of
           c1 # c2 # _ \<Rightarrow>
             if (if b = 0xE0 then 0xA0 else 0x80) \<le> (of_char c1 :: nat) \<and>
                (of_char c1 :: nat) \<le> (if b = 0xED then 0x9F else 0xBF) \<and> continuation c2
             then Some ((b mod 0x10) * 0x1000 + (of_char c1 mod 0x40) * 0x40 +
                        of_char c2 mod 0x40, 3)
             else None
         | _ \<Rightarrow> None)
      else if b < 0xF5 then
        (case cs of
           c1 # c2 # c3 # _ \<Rightarrow>
             if (if b = 0xF0 then 0x90 else 0x80) \<le> (of_char c1 :: nat) \<and>
                (of_char c1 :: nat) \<le> (if b = 0xF4 then 0x8F else 0xBF) \<and>
                continuation c2 \<and> continuation c3
             then Some ((b mod 0x08) * 0x40000 + (of_char c1 mod 0x40) * 0x1000 +
                        (of_char c2 mod 0x40) * 0x40 + of_char c3 mod 0x40, 4)
             else None
         | _ \<Rightarrow> None)
      else None)"

text \<open>
  \<^verbatim>\<open>strconv.IsPrint\<close>: decided in the code of the function for the runes up to U+00FF, and
  looked up in the tables of Go's standard library for the runes above. The tables are
  the parameter \<open>tab\<close> of the model.
\<close>

definition IsPrint :: "(nat \<Rightarrow> bool) \<Rightarrow> nat \<Rightarrow> bool" where
  "IsPrint tab r =
     (if r \<le> 0xFF then (0x20 \<le> r \<and> r \<le> 0x7E) \<or> (0xA1 \<le> r \<and> r \<noteq> 0xAD) else tab r)"

definition lowerhex :: "nat \<Rightarrow> char" where
  "lowerhex n = ''0123456789abcdef'' ! (n mod 16)"

text \<open>
  \<^verbatim>\<open>utf8.AppendRune\<close>: the UTF-8 encoding of a rune, and the encoding of the error rune
  U+FFFD for a surrogate and for a value above U+10FFFF.
\<close>

definition AppendRune :: "nat \<Rightarrow> string" where
  "AppendRune r =
     (if r < 0x80 then [char_of r]
      else if r < 0x800 then [char_of (0xC0 + r div 0x40), char_of (0x80 + r mod 0x40)]
      else if 0x10FFFF < r \<or> (0xD800 \<le> r \<and> r \<le> 0xDFFF) then [CHR 0xEF, CHR 0xBF, CHR 0xBD]
      else if r < 0x10000 then
        [char_of (0xE0 + r div 0x1000), char_of (0x80 + r div 0x40 mod 0x40),
         char_of (0x80 + r mod 0x40)]
      else
        [char_of (0xF0 + r div 0x40000), char_of (0x80 + r div 0x1000 mod 0x40),
         char_of (0x80 + r div 0x40 mod 0x40), char_of (0x80 + r mod 0x40)])"

text \<open>
  \<^verbatim>\<open>appendEscapedRune\<close>: the quote and the backslash behind a backslash, a printable rune
  in its encoding, the named escapes, and the escapes \<^verbatim>\<open>\x\<close>, \<^verbatim>\<open>\u\<close> and \<^verbatim>\<open>\U\<close> with two,
  four and eight hexadecimal digits; a value that is no rune is escaped as U+FFFD.
\<close>

definition appendEscapedRune :: "(nat \<Rightarrow> bool) \<Rightarrow> nat \<Rightarrow> string" where
  "appendEscapedRune tab r =
     (if r = 0x22 \<or> r = 0x5C then [CHR 0x5C, char_of r]
      else if IsPrint tab r then AppendRune r
      else if r = 0x07 then [CHR 0x5C, CHR ''a'']
      else if r = 0x08 then [CHR 0x5C, CHR ''b'']
      else if r = 0x0C then [CHR 0x5C, CHR ''f'']
      else if r = 0x0A then [CHR 0x5C, CHR ''n'']
      else if r = 0x0D then [CHR 0x5C, CHR ''r'']
      else if r = 0x09 then [CHR 0x5C, CHR ''t'']
      else if r = 0x0B then [CHR 0x5C, CHR ''v'']
      else if r < 0x20 \<or> r = 0x7F then [CHR 0x5C, CHR ''x'', lowerhex (r div 0x10), lowerhex r]
      else if 0x10FFFF < r \<or> (0xD800 \<le> r \<and> r \<le> 0xDFFF) then
        [CHR 0x5C, CHR ''u'', CHR ''f'', CHR ''f'', CHR ''f'', CHR ''d'']
      else if r < 0x10000 then
        [CHR 0x5C, CHR ''u'', lowerhex (r div 0x1000), lowerhex (r div 0x100),
         lowerhex (r div 0x10), lowerhex r]
      else
        [CHR 0x5C, CHR ''U'', lowerhex (r div 0x10000000), lowerhex (r div 0x1000000),
         lowerhex (r div 0x100000), lowerhex (r div 0x10000), lowerhex (r div 0x1000),
         lowerhex (r div 0x100), lowerhex (r div 0x10), lowerhex r])"

text \<open>
  The loop of \<^verbatim>\<open>appendQuotedWith\<close> between the two quotes: a byte that decodes to no rune
  is written as a \<^verbatim>\<open>\x\<close> escape, every rune goes through \<open>appendEscapedRune\<close>.
\<close>

function quoteWith :: "(nat \<Rightarrow> bool) \<Rightarrow> string \<Rightarrow> string" where
  "quoteWith tab [] = []"
| "quoteWith tab (c # cs) =
     (case DecodeRune (c # cs) of
        None \<Rightarrow>
          [CHR 0x5C, CHR ''x'', lowerhex (of_char c div 0x10), lowerhex (of_char c)] @
          quoteWith tab cs
      | Some (r, width) \<Rightarrow>
          appendEscapedRune tab r @ quoteWith tab (drop (width - 1) cs))"
  by pat_completeness auto
termination
  by (relation "measure (\<lambda>(tab, s). length s)") auto

definition fmt_q :: "(nat \<Rightarrow> bool) \<Rightarrow> string \<Rightarrow> string" where
  "fmt_q tab s = CHR 0x22 # quoteWith tab s @ [CHR 0x22]"

section \<open>Identifier lists: \<^verbatim>\<open>protos.List\<close>\<close>

text \<open>
  Modelled from the spec: the declaration of \<^verbatim>\<open>protos.List\<close> and its accessor
  \<^verbatim>\<open>GetUids\<close> are not among the sources. An identifier list is an ordered sequence of
  unsigned integer node identifiers (\<^verbatim>\<open>pl.Uids[i]\<close> in the code, compared with \<^verbatim>\<open><\<close>);
  the code holds it through a pointer \<^verbatim>\<open>*protos.List\<close>, so an absent list is \<open>None\<close>.
\<close>

record protos_List =
  Uids :: "64 word list"

text \<open>
  Modelled from the spec: \<^verbatim>\<open>GetUids\<close> is the nil-safe accessor, which gives the
  empty sequence for an absent list and the field \<^verbatim>\<open>Uids\<close> otherwise.
\<close>

definition GetUids :: "protos_List option \<Rightarrow> 64 word list" where
  "GetUids m = (case m of None \<Rightarrow> [] | Some l \<Rightarrow> Uids l)"

text \<open>
  Modelled from the spec: how \<^verbatim>\<open>%v\<close> renders the \<^verbatim>\<open>SrcUIDs\<close> field depends on the
  absent declaration of \<^verbatim>\<open>protos.List\<close>. The spec gives the full list rendering of the
  sequence, \<^verbatim>\<open>[1 5 9]\<close> for the identifiers 1, 5, 9; a nil pointer prints as \<^verbatim>\<open><nil>\<close>.
\<close>

definition fmt_v_List :: "protos_List option \<Rightarrow> string" where
  "fmt_v_List m = (case m of None \<Rightarrow> ''<nil>'' | Some l \<Rightarrow> fmt_v_uids (Uids l))"

section \<open>The validator of one list: \<^verbatim>\<open>AssertUidListSorted\<close>\<close>

text \<open>
  Modelled from the spec: \<^verbatim>\<open>x.AssertTruef\<close> is not among the sources. When the condition
  is false it reports a fatal contract violation with the formatted message and halts the
  pass; when it is true it does nothing.
\<close>

definition AssertTruef :: "bool \<Rightarrow> string \<Rightarrow> failure + unit" where
  "AssertTruef b m = (if b then Inr () else Inl (Fatal m))"

text \<open>The format \<^verbatim>\<open>"%s list not sorted: %v"\<close> applied to the tag and the list.\<close>

definition fmt_not_sorted :: "string \<Rightarrow> 64 word list \<Rightarrow> string" where
  "fmt_not_sorted msg us = msg @ '' list not sorted: '' @ fmt_v_uids us"

text \<open>
  The loop \<^verbatim>\<open>for i := 0; i+1 < len(pl.GetUids()); i++\<close>, from the index \<open>i\<close> on. The bound
  goes through \<open>GetUids\<close>; the body reads the field \<^verbatim>\<open>pl.Uids\<close> directly, which
  dereferences \<open>pl\<close> and checks both indices.
\<close>

function AssertUidListSorted_loop :: "nat \<Rightarrow> protos_List option \<Rightarrow> string \<Rightarrow> failure + unit" where
  "AssertUidListSorted_loop i pl msg =
     (if i + 1 < length (GetUids pl) then
        (case pl of
           None \<Rightarrow> Inl NilDereference
         | Some l \<Rightarrow>
             if i < length (Uids l) \<and> i + 1 < length (Uids l) then
               (case AssertTruef (Uids l ! i < Uids l ! (i + 1))
                       (fmt_not_sorted msg (GetUids pl)) of
                  Inl e \<Rightarrow> Inl e
                | Inr _ \<Rightarrow> AssertUidListSorted_loop (i + 1) pl msg)
             else Inl IndexOutOfRange)
      else Inr ())"
  by pat_completeness auto
termination
  by (relation "measure (\<lambda>(i, pl, msg). length (GetUids pl) - i)") auto

declare AssertUidListSorted_loop.simps [simp del]

definition AssertUidListSorted :: "protos_List option \<Rightarrow> string \<Rightarrow> failure + unit" where
  "AssertUidListSorted pl msg = AssertUidListSorted_loop 0 pl msg"

section \<open>Result trees: \<^verbatim>\<open>SubGraph\<close>\<close>

text \<open>
  Modelled from the spec: the declaration of \<^verbatim>\<open>SubGraph\<close> is not among the sources. The
  code reads four fields: the label \<^verbatim>\<open>Attr\<close>, the two identifier lists \<^verbatim>\<open>SrcUIDs\<close> and
  \<^verbatim>\<open>DestUIDs\<close>, and the ordered children \<^verbatim>\<open>Children\<close>. A node is held through a pointer
  \<^verbatim>\<open>*SubGraph\<close>; \<open>None\<close> is the nil pointer, for the root and for a child alike.
\<close>

datatype SubGraph =
  SubGraph (Attr: string) (SrcUIDs: "protos_List option") (DestUIDs: "protos_List option")
    (Children: "SubGraph option list")

section \<open>The validator: \<^verbatim>\<open>AssertSorted\<close>\<close>

function AssertSorted :: "SubGraph option \<Rightarrow> failure + unit"
  and AssertSorted_range :: "SubGraph option list \<Rightarrow> failure + unit" where
  "AssertSorted None = Inr ()"
| "AssertSorted (Some sg) =
     (case AssertUidListSorted (SrcUIDs sg) ''src uid'' of
        Inl e \<Rightarrow> Inl e
      | Inr _ \<Rightarrow>
          (case AssertUidListSorted (DestUIDs sg) ''dest uid'' of
             Inl e \<Rightarrow> Inl e
           | Inr _ \<Rightarrow> AssertSorted_range (Children sg)))"
| "AssertSorted_range [] = Inr ()"
| "AssertSorted_range (ch # chs) =
     (case AssertSorted ch of Inl e \<Rightarrow> Inl e | Inr _ \<Rightarrow> AssertSorted_range chs)"
  by pat_completeness auto
termination
  apply (relation "measure (\<lambda>x. case x of
          Inl sg \<Rightarrow> size_option size sg
        | Inr chs \<Rightarrow> size_list (size_option size) chs)")
    apply simp_all
  subgoal for sg by (cases sg) simp
  done

section \<open>The dumper: \<^verbatim>\<open>DebugSubgraph\<close>\<close>

text \<open>
  Standard output is the sequence of texts written, one per \<^verbatim>\<open>fmt.Printf\<close> call; the
  bytes on the stream are their concatenation. A call gives its outcome and what it wrote.
  The arguments of the first \<^verbatim>\<open>Printf\<close> read \<^verbatim>\<open>sg.Attr\<close>, so a nil \<open>sg\<close> panics before
  anything is written. The argument \<open>tab\<close> is the table of printable runes that \<^verbatim>\<open>%q\<close>
  consults, the same in every call.
\<close>

definition nl :: string where
  "nl = [CHR 0x0A]"

text \<open>The three formats of the dumper, applied to their arguments.\<close>

definition fmt_Attr :: "(nat \<Rightarrow> bool) \<Rightarrow> string \<Rightarrow> string \<Rightarrow> string" where
  "fmt_Attr tab indent attr = indent @ ''Attr='' @ fmt_q tab attr @ nl"

definition fmt_SrcUids :: "string \<Rightarrow> protos_List option \<Rightarrow> string" where
  "fmt_SrcUids indent l = indent @ ''  SrcUids='' @ fmt_v_List l @ nl"

definition fmt_Child :: "string \<Rightarrow> nat \<Rightarrow> string" where
  "fmt_Child indent i = indent @ ''  Child='' @ fmt_d i @ nl"

text \<open>The four spaces that the recursive call adds to the indentation.\<close>

definition indent_unit :: string where
  "indent_unit = ''    ''"

function DebugSubgraph ::
    "(nat \<Rightarrow> bool) \<Rightarrow> SubGraph option \<Rightarrow> string \<Rightarrow> (failure + unit) \<times> string list"
  and DebugSubgraph_range ::
    "(nat \<Rightarrow> bool) \<Rightarrow> SubGraph option list \<Rightarrow> nat \<Rightarrow> string \<Rightarrow> (failure + unit) \<times> string list" where
  "DebugSubgraph tab None indent = (Inl NilDereference, [])"
| "DebugSubgraph tab (Some sg) indent =
     (let (r, ws) = DebugSubgraph_range tab (Children sg) 0 indent
      in (r, fmt_Attr tab indent (Attr sg) # fmt_SrcUids indent (SrcUIDs sg) # ws))"
| "DebugSubgraph_range tab [] i indent = (Inr (), [])"
| "DebugSubgraph_range tab (ch # chs) i indent =
     (let (r, ws) = DebugSubgraph tab ch (indent @ indent_unit)
      in case r of
           Inl e \<Rightarrow> (Inl e, fmt_Child indent i # ws)
         | Inr _ \<Rightarrow>
             (let (r', ws') = DebugSubgraph_range tab chs (i + 1) indent
              in (r', fmt_Child indent i # ws @ ws')))"
  by pat_completeness auto
termination
  apply (relation "measure (\<lambda>x. case x of
          Inl (tab, sg, indent) \<Rightarrow> size_option size sg
        | Inr (tab, chs, i, indent) \<Rightarrow> size_list (size_option size) chs)")
    apply simp_all
  subgoal for sg by (cases sg) simp
  done

section \<open>The same code over a store of nodes\<close>

text \<open>
  In Go a \<^verbatim>\<open>*SubGraph\<close> is an address, the node lives in the store, and both functions could
  write through the pointer. The second model keeps this: a store maps every address to
  the node struct held there, whose children are addresses again (\<open>None\<close> is nil), and
  each function takes the machine state and returns the state it leaves. Nothing makes
  the store a tree, so a call may recurse forever; the fuel bounds the depth of the
  recursion, and running out of it is the value \<open>None\<close>. The identifier lists stay
  values inside the struct: the code reads them only.
\<close>

type_synonym addr = nat

record SubGraph_struct =
  struct_Attr :: string
  struct_SrcUIDs :: "protos_List option"
  struct_DestUIDs :: "protos_List option"
  struct_Children :: "addr option list"

text \<open>
  The machine state: the store, the texts written to standard output, and a ghost trace
  of the addresses whose node a call has entered, in order. The trace is no part of the
  program; it is what the theorems about visits speak of.
\<close>

record machine =
  heap :: "addr \<Rightarrow> SubGraph_struct"
  stdout :: "string list"
  visited :: "addr list"

definition Printf :: "string \<Rightarrow> machine \<Rightarrow> machine" where
  "Printf w s = s\<lparr>stdout := stdout s @ [w]\<rparr>"

definition enter :: "addr \<Rightarrow> machine \<Rightarrow> machine" where
  "enter a s = s\<lparr>visited := visited s @ [a]\<rparr>"

text \<open>
  \<^verbatim>\<open>AssertSorted\<close>: the slice \<^verbatim>\<open>sg.Children\<close> is read once, when the \<^verbatim>\<open>range\<close> loop starts.
\<close>

function AssertSorted_heap :: "nat \<Rightarrow> addr option \<Rightarrow> machine \<Rightarrow> ((failure + unit) \<times> machine) option"
  and AssertSorted_heap_range ::
    "nat \<Rightarrow> addr option list \<Rightarrow> machine \<Rightarrow> ((failure + unit) \<times> machine) option" where
  "AssertSorted_heap 0 sg s = None"
| "AssertSorted_heap (Suc n) None s = Some (Inr (), s)"
| "AssertSorted_heap (Suc n) (Some a) s =
     (let s1 = enter a s in
      case AssertUidListSorted (struct_SrcUIDs (heap s1 a)) ''src uid'' of
        Inl e \<Rightarrow> Some (Inl e, s1)
      | Inr _ \<Rightarrow>
          (case AssertUidListSorted (struct_DestUIDs (heap s1 a)) ''dest uid'' of
             Inl e \<Rightarrow> Some (Inl e, s1)
           | Inr _ \<Rightarrow> AssertSorted_heap_range n (struct_Children (heap s1 a)) s1))"
| "AssertSorted_heap_range n [] s = Some (Inr (), s)"
| "AssertSorted_heap_range n (ch # chs) s =
     (case AssertSorted_heap n ch s of
        None \<Rightarrow> None
      | Some (Inl e, s') \<Rightarrow> Some (Inl e, s')
      | Some (Inr _, s') \<Rightarrow> AssertSorted_heap_range n chs s')"
  by pat_completeness auto
termination
  by (relation "inv_image (less_than <*lex*> less_than) (\<lambda>x. case x of
          Inl (n, sg, s) \<Rightarrow> (n, 0)
        | Inr (n, chs, s) \<Rightarrow> (n, Suc (length chs)))")
    auto

text \<open>
  \<^verbatim>\<open>DebugSubgraph\<close>: \<^verbatim>\<open>for i := range sg.Children\<close> fixes the number of rounds when the loop
  starts, and each round reads \<^verbatim>\<open>sg.Children[i]\<close> from the store as it is then, with the
  bounds check of the index expression.
\<close>

function DebugSubgraph_heap ::
    "(nat \<Rightarrow> bool) \<Rightarrow> nat \<Rightarrow> addr option \<Rightarrow> string \<Rightarrow> machine \<Rightarrow> ((failure + unit) \<times> machine) option"
  and DebugSubgraph_heap_range ::
    "(nat \<Rightarrow> bool) \<Rightarrow> nat \<Rightarrow> addr \<Rightarrow> nat \<Rightarrow> nat \<Rightarrow> string \<Rightarrow> machine \<Rightarrow>
     ((failure + unit) \<times> machine) option" where
  "DebugSubgraph_heap tab 0 sg indent s = None"
| "DebugSubgraph_heap tab (Suc n) None indent s = Some (Inl NilDereference, s)"
| "DebugSubgraph_heap tab (Suc n) (Some a) indent s =
     (let s0 = enter a s;
          s1 = Printf (fmt_Attr tab indent (struct_Attr (heap s0 a))) s0;
          s2 = Printf (fmt_SrcUids indent (struct_SrcUIDs (heap s1 a))) s1
      in DebugSubgraph_heap_range tab n a (length (struct_Children (heap s2 a))) 0 indent s2)"
| "DebugSubgraph_heap_range tab n a len i indent s =
     (if i < len then
        (let s1 = Printf (fmt_Child indent i) s in
         if i < length (struct_Children (heap s1 a)) then
           (case DebugSubgraph_heap tab n (struct_Children (heap s1 a) ! i) (indent @ indent_unit) s1 of
              None \<Rightarrow> None
            | Some (Inl e, s') \<Rightarrow> Some (Inl e, s')
            | Some (Inr _, s') \<Rightarrow> DebugSubgraph_heap_range tab n a len (i + 1) indent s')
         else Some (Inl IndexOutOfRange, s1))
      else Some (Inr (), s))"
  by pat_completeness auto
termination
  by (relation "inv_image (less_than <*lex*> less_than) (\<lambda>x. case x of
          Inl (tab, n, sg, indent, s) \<Rightarrow> (n, 0)
        | Inr (tab, n, a, len, i, indent, s) \<Rightarrow> (n, Suc (len - i)))")
    auto

declare DebugSubgraph_heap_range.simps [simp del]

text \<open>
  The tree that a store holds below a pointer, read to the depth the fuel allows, with
  the addresses of its nodes in depth-first pre-order; \<open>None\<close> when the structure below
  the pointer is deeper than the fuel (as every cyclic one is).
\<close>

function load_tree :: "nat \<Rightarrow> (addr \<Rightarrow> SubGraph_struct) \<Rightarrow> addr option \<Rightarrow> (SubGraph option \<times> addr list) option"
  and load_trees ::
    "nat \<Rightarrow> (addr \<Rightarrow> SubGraph_struct) \<Rightarrow> addr option list \<Rightarrow> (SubGraph option list \<times> addr list) option" where
  "load_tree 0 h p = None"
| "load_tree (Suc n) h None = Some (None, [])"
| "load_tree (Suc n) h (Some a) =
     (case load_trees n h (struct_Children (h a)) of
        None \<Rightarrow> None
      | Some (ts, as) \<Rightarrow>
          Some (Some (SubGraph (struct_Attr (h a)) (struct_SrcUIDs (h a)) (struct_DestUIDs (h a)) ts),
                a # as))"
| "load_trees n h [] = Some ([], [])"
| "load_trees n h (p # ps) =
     (case load_tree n h p of
        None \<Rightarrow> None
      | Some (t, as) \<Rightarrow>
          (case load_trees n h ps of
             None \<Rightarrow> None
           | Some (ts, bs) \<Rightarrow> Some (t # ts, as @ bs)))"
  by pat_completeness auto
termination
  by (relation "inv_image (less_than <*lex*> less_than) (\<lambda>x. case x of
          Inl (n, h, p) \<Rightarrow> (n, 0)
        | Inr (n, h, ps) \<Rightarrow> (n, Suc (length ps)))")
    auto

section \<open>Vocabulary of the properties\<close>

text \<open>The adjacent pair at index \<open>j\<close> of a list is out of order: earlier \<open>\<ge>\<close> later.\<close>

definition unsorted_pair :: "64 word list \<Rightarrow> nat \<Rightarrow> bool" where
  "unsorted_pair us j \<longleftrightarrow> j + 1 < length us \<and> us ! (j + 1) \<le> us ! j"

definition has_unsorted_pair :: "64 word list \<Rightarrow> bool" where
  "has_unsorted_pair us \<longleftrightarrow> (\<exists>j < length us. unsorted_pair us j)"

text \<open>Both lists of a node are strictly increasing.\<close>

definition node_sorted :: "SubGraph \<Rightarrow> bool" where
  "node_sorted sg \<longleftrightarrow>
     sorted_wrt (<) (GetUids (SrcUIDs sg)) \<and> sorted_wrt (<) (GetUids (DestUIDs sg))"

text \<open>The nodes of a tree, in depth-first pre-order; every node is the root of a subtree.\<close>

function nodes :: "SubGraph option \<Rightarrow> SubGraph list"
  and nodes_range :: "SubGraph option list \<Rightarrow> SubGraph list" where
  "nodes None = []"
| "nodes (Some sg) = sg # nodes_range (Children sg)"
| "nodes_range [] = []"
| "nodes_range (ch # chs) = nodes ch @ nodes_range chs"
  by pat_completeness auto
termination
  apply (relation "measure (\<lambda>x. case x of
          Inl sg \<Rightarrow> size_option size sg
        | Inr chs \<Rightarrow> size_list (size_option size) chs)")
    apply simp_all
  subgoal for sg by (cases sg) simp
  done

text \<open>No node of the tree is absent: neither the root nor any child at any depth.\<close>

function no_nil :: "SubGraph option \<Rightarrow> bool"
  and no_nil_range :: "SubGraph option list \<Rightarrow> bool" where
  "no_nil None \<longleftrightarrow> False"
| "no_nil (Some sg) \<longleftrightarrow> no_nil_range (Children sg)"
| "no_nil_range [] \<longleftrightarrow> True"
| "no_nil_range (ch # chs) \<longleftrightarrow> no_nil ch \<and> no_nil_range chs"
  by pat_completeness auto
termination
  apply (relation "measure (\<lambda>x. case x of
          Inl sg \<Rightarrow> size_option size sg
        | Inr chs \<Rightarrow> size_list (size_option size) chs)")
    apply simp_all
  subgoal for sg by (cases sg) simp
  done

text \<open>
  The tree with every destination list removed: two trees are identical except in the
  destination lists of their nodes when this gives the same tree for both.
\<close>

function clear_dest :: "SubGraph option \<Rightarrow> SubGraph option"
  and clear_dest_range :: "SubGraph option list \<Rightarrow> SubGraph option list" where
  "clear_dest None = None"
| "clear_dest (Some sg) =
     Some (SubGraph (Attr sg) (SrcUIDs sg) None (clear_dest_range (Children sg)))"
| "clear_dest_range [] = []"
| "clear_dest_range (ch # chs) = clear_dest ch # clear_dest_range chs"
  by pat_completeness auto
termination
  apply (relation "measure (\<lambda>x. case x of
          Inl sg \<Rightarrow> size_option size sg
        | Inr chs \<Rightarrow> size_list (size_option size) chs)")
    apply simp_all
  subgoal for sg by (cases sg) simp
  done

text \<open>
  The visits of a call with outcome \<open>r\<close> on a tree whose nodes are at the addresses \<open>as\<close>:
  an initial part of \<open>as\<close>, and all of \<open>as\<close> when the call returns normally.
\<close>

definition visits_upto :: "failure + unit \<Rightarrow> addr list \<Rightarrow> addr list \<Rightarrow> bool" where
  "visits_upto r vs as \<longleftrightarrow> prefix vs as \<and> (r = Inr () \<longrightarrow> vs = as)"

text \<open>The struct at the address \<open>a\<close> of the store is the node \<open>sg\<close> of a tree.\<close>

definition node_at :: "(addr \<Rightarrow> SubGraph_struct) \<Rightarrow> addr \<Rightarrow> SubGraph \<Rightarrow> bool" where
  "node_at h a sg \<longleftrightarrow>
     struct_Attr (h a) = Attr sg \<and> struct_SrcUIDs (h a) = SrcUIDs sg \<and>
     struct_DestUIDs (h a) = DestUIDs sg \<and>
     length (struct_Children (h a)) = length (Children sg)"

text \<open>
  The dump as the output format describes it, written from the spec and not from the
  code: per node the line \<^verbatim>\<open>Attr=<quoted-label>\<close>, the line \<^verbatim>\<open>  SrcUids=<list-rendering>\<close>,
  and per child the line \<^verbatim>\<open>  Child=<zero-based-index>\<close> followed by the child's lines one
  level deeper. Each line is paired with the depth of its node and carries neither its
  indentation nor its line end yet.
\<close>

function spec_layout :: "(nat \<Rightarrow> bool) \<Rightarrow> nat \<Rightarrow> SubGraph option \<Rightarrow> (nat \<times> string) list"
  and spec_layout_range ::
    "(nat \<Rightarrow> bool) \<Rightarrow> nat \<Rightarrow> nat \<Rightarrow> SubGraph option list \<Rightarrow> (nat \<times> string) list" where
  "spec_layout tab d None = []"
| "spec_layout tab d (Some sg) =
     (d, ''Attr='' @ fmt_q tab (Attr sg)) # (d, ''  SrcUids='' @ fmt_v_List (SrcUIDs sg)) #
     spec_layout_range tab d 0 (Children sg)"
| "spec_layout_range tab d i [] = []"
| "spec_layout_range tab d i (ch # chs) =
     (d, ''  Child='' @ fmt_d i) # spec_layout tab (d + 1) ch @ spec_layout_range tab d (i + 1) chs"
  by pat_completeness auto
termination
  apply (relation "measure (\<lambda>x. case x of
          Inl (tab, d, sg) \<Rightarrow> size_option size sg
        | Inr (tab, d, i, chs) \<Rightarrow> size_list (size_option size) chs)")
    apply simp_all
  subgoal for sg by (cases sg) simp
  done

text \<open>
  A line of the layout as it is written: the prefix, four spaces per level of depth, the
  text of the line, the line end.
\<close>

definition indented :: "string \<Rightarrow> nat \<times> string \<Rightarrow> string" where
  "indented indent l = indent @ concat (replicate (fst l) ''    '') @ snd l @ [CHR 0x0A]"

text \<open>
  Every tree can be put into a store: the nodes are written at consecutive addresses from
  the first free one on, in pre-order, each with the pointers to its children. The
  result is the pointer to the root, the new store and the next free address.
\<close>

function store_tree ::
    "SubGraph option \<Rightarrow> (addr \<Rightarrow> SubGraph_struct) \<Rightarrow> addr \<Rightarrow>
       addr option \<times> (addr \<Rightarrow> SubGraph_struct) \<times> addr"
  and store_trees ::
    "SubGraph option list \<Rightarrow> (addr \<Rightarrow> SubGraph_struct) \<Rightarrow> addr \<Rightarrow>
       addr option list \<times> (addr \<Rightarrow> SubGraph_struct) \<times> addr" where
  "store_tree None h k = (None, h, k)"
| "store_tree (Some sg) h k =
     (case store_trees (Children sg) h (k + 1) of
        (ps, h', k') \<Rightarrow>
          (Some k,
           h'(k := \<lparr>struct_Attr = Attr sg, struct_SrcUIDs = SrcUIDs sg,
                    struct_DestUIDs = DestUIDs sg, struct_Children = ps\<rparr>),
           k'))"
| "store_trees [] h k = ([], h, k)"
| "store_trees (ch # chs) h k =
     (case store_tree ch h k of
        (p, h1, k1) \<Rightarrow>
          (case store_trees chs h1 k1 of
             (ps, h2, k2) \<Rightarrow> (p # ps, h2, k2)))"
  by pat_completeness auto
termination
  apply (relation "measure (\<lambda>x. case x of
          Inl (sg, h, k) \<Rightarrow> size_option size sg
        | Inr (chs, h, k) \<Rightarrow> size_list (size_option size) chs)")
    apply simp_all
  subgoal for sg by (cases sg) simp
  done

text \<open>
  The example scenario: the node \<^verbatim>\<open>forum\<close> at address 0 with the one child \<^verbatim>\<open>thread\<close> at
  address 1, in a store whose other addresses hold empty nodes; the machine that has
  written nothing yet; and the tree that the store holds below address 0.
\<close>

definition example_heap :: "addr \<Rightarrow> SubGraph_struct" where
  "example_heap =
     (\<lambda>_. \<lparr>struct_Attr = [], struct_SrcUIDs = None, struct_DestUIDs = None,
            struct_Children = []\<rparr>)
     (0 := \<lparr>struct_Attr = ''forum'', struct_SrcUIDs = Some \<lparr>Uids = [1, 5, 9]\<rparr>,
             struct_DestUIDs = None, struct_Children = [Some 1]\<rparr>,
      1 := \<lparr>struct_Attr = ''thread'', struct_SrcUIDs = Some \<lparr>Uids = [2, 4]\<rparr>,
             struct_DestUIDs = Some \<lparr>Uids = [10, 11]\<rparr>, struct_Children = []\<rparr>)"

definition example_machine :: machine where
  "example_machine = \<lparr>heap = example_heap, stdout = [], visited = []\<rparr>"

definition example_tree :: "SubGraph option" where
  "example_tree =
     Some (SubGraph ''forum'' (Some \<lparr>Uids = [1, 5, 9]\<rparr>) None
       [Some (SubGraph ''thread'' (Some \<lparr>Uids = [2, 4]\<rparr>) (Some \<lparr>Uids = [10, 11]\<rparr>) [])])"

text \<open>The example violation: the same tree with the child's destination list 11, 10.\<close>

definition example_violation :: "SubGraph option" where
  "example_violation =
     Some (SubGraph ''forum'' (Some \<lparr>Uids = [1, 5, 9]\<rparr>) None
       [Some (SubGraph ''thread'' (Some \<lparr>Uids = [2, 4]\<rparr>) (Some \<lparr>Uids = [11, 10]\<rparr>) [])])"


text \<open>
  A table of printable runes for the examples: of the runes above U+00FF, the euro sign
  U+20AC alone.
\<close>

definition example_table :: "nat \<Rightarrow> bool" where
  "example_table r \<longleftrightarrow> r = 0x20AC"

section \<open>The validator of one list\<close>

lemma pairs_from_step:
  fixes us :: "64 word list"
  assumes lt: "us ! i < us ! (i + 1)"
  shows "(\<forall>j. i \<le> j \<and> j + 1 < length us \<longrightarrow> us ! j < us ! (j + 1))
          \<longleftrightarrow> (\<forall>j. i + 1 \<le> j \<and> j + 1 < length us \<longrightarrow> us ! j < us ! (j + 1))"
proof
  assume a: "\<forall>j. i \<le> j \<and> j + 1 < length us \<longrightarrow> us ! j < us ! (j + 1)"
  show "\<forall>j. i + 1 \<le> j \<and> j + 1 < length us \<longrightarrow> us ! j < us ! (j + 1)"
  proof (intro allI impI)
    fix j assume "i + 1 \<le> j \<and> j + 1 < length us"
    then have "i \<le> j \<and> j + 1 < length us" by simp
    with a show "us ! j < us ! (j + 1)" by blast
  qed
next
  assume a: "\<forall>j. i + 1 \<le> j \<and> j + 1 < length us \<longrightarrow> us ! j < us ! (j + 1)"
  show "\<forall>j. i \<le> j \<and> j + 1 < length us \<longrightarrow> us ! j < us ! (j + 1)"
  proof (intro allI impI)
    fix j assume h: "i \<le> j \<and> j + 1 < length us"
    show "us ! j < us ! (j + 1)"
    proof (cases "j = i")
      case True
      with lt show ?thesis by simp
    next
      case False
      with h have "i + 1 \<le> j \<and> j + 1 < length us" by simp
      with a show ?thesis by blast
    qed
  qed
qed

text \<open>
  The loop from \<open>i\<close> on succeeds when every adjacent pair from \<open>i\<close> on is in order, and
  otherwise stops with the one message the code can produce for this list.
\<close>

lemma AssertUidListSorted_loop_eq:
  "AssertUidListSorted_loop i pl msg =
     (if \<forall>j. i \<le> j \<and> j + 1 < length (GetUids pl) \<longrightarrow> GetUids pl ! j < GetUids pl ! (j + 1)
      then Inr ()
      else Inl (Fatal (fmt_not_sorted msg (GetUids pl))))"
proof (induction i pl msg rule: AssertUidListSorted_loop.induct)
  case (1 i pl msg)
  let ?us = "GetUids pl"
  let ?m = "fmt_not_sorted msg ?us"
  let ?P = "\<lambda>k. \<forall>j. k \<le> j \<and> j + 1 < length ?us \<longrightarrow> ?us ! j < ?us ! (j + 1)"
  note unfold = AssertUidListSorted_loop.simps [of i pl msg]
  show ?case
  proof (cases "i + 1 < length ?us")
    case False
    then have "AssertUidListSorted_loop i pl msg = Inr ()"
      by (simp add: unfold)
    moreover have "?P i"
    proof (intro allI impI)
      fix j assume "i \<le> j \<and> j + 1 < length ?us"
      with False have False by linarith
      then show "?us ! j < ?us ! (j + 1)" ..
    qed
    ultimately show ?thesis by simp
  next
    case True
    then obtain l where pl: "pl = Some l"
      by (cases pl) (auto simp: GetUids_def)
    then have us: "Uids l = ?us"
      by (simp add: GetUids_def)
    have body: "AssertUidListSorted_loop i pl msg =
        (case AssertTruef (?us ! i < ?us ! (i + 1)) ?m of
           Inl e \<Rightarrow> Inl e | Inr _ \<Rightarrow> AssertUidListSorted_loop (i + 1) pl msg)"
      using True by (subst unfold) (simp add: pl us)
    show ?thesis
    proof (cases "?us ! i < ?us ! (i + 1)")
      case False
      then have "AssertUidListSorted_loop i pl msg = Inl (Fatal ?m)"
        by (simp add: body AssertTruef_def)
      moreover from False True have "\<not> ?P i"
        by blast
      ultimately show ?thesis by simp
    next
      case lt: True
      then have "AssertUidListSorted_loop i pl msg = AssertUidListSorted_loop (i + 1) pl msg"
        by (simp add: body AssertTruef_def)
      also have "\<dots> = (if ?P (i + 1) then Inr () else Inl (Fatal ?m))"
        using "1.IH" [OF True pl] True lt us by (simp add: AssertTruef_def)
      also have "?P (i + 1) \<longleftrightarrow> ?P i"
        using pairs_from_step [OF lt] by simp
      finally show ?thesis .
    qed
  qed
qed

lemma has_unsorted_pair_iff: "has_unsorted_pair us \<longleftrightarrow> (\<exists>j. unsorted_pair us j)"
proof
  assume "has_unsorted_pair us"
  then show "\<exists>j. unsorted_pair us j"
    by (auto simp: has_unsorted_pair_def)
next
  assume "\<exists>j. unsorted_pair us j"
  then obtain j where j: "unsorted_pair us j" ..
  then have "j < length us"
    by (simp add: unsorted_pair_def)
  with j show "has_unsorted_pair us"
    unfolding has_unsorted_pair_def by blast
qed

lemma no_unsorted_pair_iff:
  "(\<forall>j. j + 1 < length us \<longrightarrow> us ! j < us ! (j + 1)) \<longleftrightarrow> \<not> has_unsorted_pair us"
  by (auto simp: has_unsorted_pair_iff unsorted_pair_def not_le)

lemma AssertUidListSorted_eq:
  "AssertUidListSorted pl msg =
     (if has_unsorted_pair (GetUids pl)
      then Inl (Fatal (fmt_not_sorted msg (GetUids pl)))
      else Inr ())"
  using no_unsorted_pair_iff [of "GetUids pl"]
  by (simp add: AssertUidListSorted_def AssertUidListSorted_loop_eq)

lemma strictly_increasing_iff:
  fixes us :: "64 word list"
  shows "sorted_wrt (<) us \<longleftrightarrow> \<not> has_unsorted_pair us"
proof -
  have "sorted_wrt (<) us \<longleftrightarrow> (\<forall>j. Suc j < length us \<longrightarrow> us ! j < us ! Suc j)"
    by (rule sorted_wrt_iff_nth_Suc_transp) (rule transp_on_less)
  then show ?thesis
    using no_unsorted_pair_iff [of us] by simp
qed

lemma has_unsorted_pair_eval:
  fixes us :: "64 word list"
  shows "has_unsorted_pair us \<longleftrightarrow> \<not> sorted_wrt (<) us"
  by (simp add: strictly_increasing_iff)

section \<open>The validator of a tree\<close>

text \<open>A node passes when neither of its two lists has an out-of-order adjacent pair.\<close>

lemma node_check_eq:
  "(case AssertUidListSorted (SrcUIDs sg) ''src uid'' of
      Inl e \<Rightarrow> Inl e
    | Inr _ \<Rightarrow>
        (case AssertUidListSorted (DestUIDs sg) ''dest uid'' of
           Inl e \<Rightarrow> Inl e
         | Inr _ \<Rightarrow> k)) =
   (if has_unsorted_pair (GetUids (SrcUIDs sg))
    then Inl (Fatal (fmt_not_sorted ''src uid'' (GetUids (SrcUIDs sg))))
    else if has_unsorted_pair (GetUids (DestUIDs sg))
    then Inl (Fatal (fmt_not_sorted ''dest uid'' (GetUids (DestUIDs sg))))
    else k)"
  by (simp only: AssertUidListSorted_eq sum.case if_distrib [of "case_sum _ _"] split: if_split)

lemma AssertSorted_Some_eq:
  "AssertSorted (Some sg) =
   (if has_unsorted_pair (GetUids (SrcUIDs sg))
    then Inl (Fatal (fmt_not_sorted ''src uid'' (GetUids (SrcUIDs sg))))
    else if has_unsorted_pair (GetUids (DestUIDs sg))
    then Inl (Fatal (fmt_not_sorted ''dest uid'' (GetUids (DestUIDs sg))))
    else AssertSorted_range (Children sg))"
  by (simp only: AssertSorted.simps node_check_eq)

lemma AssertSorted_ok_iff:
  "AssertSorted t = Inr () \<longleftrightarrow> (\<forall>sg \<in> set (nodes t). node_sorted sg)"
  "AssertSorted_range ts = Inr () \<longleftrightarrow> (\<forall>sg \<in> set (nodes_range ts). node_sorted sg)"
proof (induction t and ts rule: AssertSorted_AssertSorted_range.induct)
  case 1
  show ?case by simp
next
  case (2 sg)
  show ?case
  proof (cases "node_sorted sg")
    case True
    then have "AssertSorted (Some sg) = AssertSorted_range (Children sg)"
      by (simp add: AssertSorted_Some_eq node_sorted_def strictly_increasing_iff
            del: AssertSorted.simps)
    moreover from True have "AssertUidListSorted (SrcUIDs sg) ''src uid'' = Inr ()"
      and "AssertUidListSorted (DestUIDs sg) ''dest uid'' = Inr ()"
      by (simp_all add: AssertUidListSorted_eq node_sorted_def strictly_increasing_iff)
    ultimately show ?thesis
      using "2.IH" True by simp
  next
    case False
    then have "AssertSorted (Some sg) \<noteq> Inr ()"
      by (auto simp: AssertSorted_Some_eq node_sorted_def strictly_increasing_iff
            simp del: AssertSorted.simps)
    with False show ?thesis by simp
  qed
next
  case 3
  show ?case by simp
next
  case (4 ch chs)
  show ?case
  proof (cases "AssertSorted ch")
    case (Inl e)
    with "4.IH"(1) show ?thesis by auto
  next
    case (Inr u)
    with "4.IH" show ?thesis by auto
  qed
qed

text \<open>A failure of the validator is the message of some node of the tree for one of its lists.\<close>

lemma AssertSorted_failure:
  "AssertSorted t = Inl e \<Longrightarrow>
     \<exists>sg \<in> set (nodes t).
       (has_unsorted_pair (GetUids (SrcUIDs sg)) \<and>
        e = Fatal (fmt_not_sorted ''src uid'' (GetUids (SrcUIDs sg)))) \<or>
       (has_unsorted_pair (GetUids (DestUIDs sg)) \<and>
        e = Fatal (fmt_not_sorted ''dest uid'' (GetUids (DestUIDs sg))))"
  "AssertSorted_range ts = Inl e \<Longrightarrow>
     \<exists>sg \<in> set (nodes_range ts).
       (has_unsorted_pair (GetUids (SrcUIDs sg)) \<and>
        e = Fatal (fmt_not_sorted ''src uid'' (GetUids (SrcUIDs sg)))) \<or>
       (has_unsorted_pair (GetUids (DestUIDs sg)) \<and>
        e = Fatal (fmt_not_sorted ''dest uid'' (GetUids (DestUIDs sg))))"
proof (induction t and ts rule: AssertSorted_AssertSorted_range.induct)
  case 1
  then show ?case by simp
next
  case (2 sg)
  let ?bad = "\<lambda>n. (has_unsorted_pair (GetUids (SrcUIDs n)) \<and>
        e = Fatal (fmt_not_sorted ''src uid'' (GetUids (SrcUIDs n)))) \<or>
       (has_unsorted_pair (GetUids (DestUIDs n)) \<and>
        e = Fatal (fmt_not_sorted ''dest uid'' (GetUids (DestUIDs n))))"
  show ?case
  proof (cases "node_sorted sg")
    case True
    then have src: "AssertUidListSorted (SrcUIDs sg) ''src uid'' = Inr ()"
      and dst: "AssertUidListSorted (DestUIDs sg) ''dest uid'' = Inr ()"
      by (simp_all add: AssertUidListSorted_eq node_sorted_def strictly_increasing_iff)
    with "2.prems" have "AssertSorted_range (Children sg) = Inl e"
      by simp
    from "2.IH" [OF src dst this] obtain n where "n \<in> set (nodes_range (Children sg))" "?bad n"
      by blast
    then show ?thesis by auto
  next
    case False
    with "2.prems" have "?bad sg"
      by (simp add: AssertSorted_Some_eq node_sorted_def strictly_increasing_iff
            del: AssertSorted.simps split: if_splits)
    then show ?thesis by simp
  qed
next
  case 3
  then show ?case by simp
next
  case (4 ch chs)
  show ?case
  proof (cases "AssertSorted ch")
    case (Inl e')
    with "4.prems" have "AssertSorted ch = Inl e" by simp
    from "4.IH"(1) [OF this] show ?thesis by auto
  next
    case (Inr u)
    with "4.prems" have "AssertSorted_range chs = Inl e" by simp
    from "4.IH"(2) [OF Inr this] show ?thesis by auto
  qed
qed

text \<open>The nodes of a subtree are nodes of the tree.\<close>

lemma nodes_subtree:
  "sub \<in> set (nodes t) \<Longrightarrow> set (nodes (Some sub)) \<subseteq> set (nodes t)"
  "sub \<in> set (nodes_range ts) \<Longrightarrow> set (nodes (Some sub)) \<subseteq> set (nodes_range ts)"
proof (induction t and ts rule: nodes_nodes_range.induct)
  case 1
  then show ?case by simp
next
  case (2 sg)
  then show ?case by auto
next
  case 3
  then show ?case by simp
next
  case (4 ch chs)
  then show ?case by auto
qed

lemma unsorted_node_iff:
  "has_unsorted_pair (GetUids (SrcUIDs sg)) \<or> has_unsorted_pair (GetUids (DestUIDs sg))
     \<longleftrightarrow> \<not> node_sorted sg"
  by (simp add: node_sorted_def strictly_increasing_iff)

text \<open>
  Claim C1. The validator reports a violation exactly when some node of the tree, at any
  depth, has an adjacent pair earlier \<open>\<ge>\<close> later in its source or destination list; it
  succeeds exactly when no node has one; and when every list of every node is strictly
  increasing it succeeds on the whole tree and on every subtree.
\<close>

theorem AssertSorted_reports_iff_unsorted:
  "((\<exists>m. AssertSorted t = Inl (Fatal m)) \<longleftrightarrow>
      (\<exists>sg \<in> set (nodes t).
         (\<exists>j. unsorted_pair (GetUids (SrcUIDs sg)) j) \<or>
         (\<exists>j. unsorted_pair (GetUids (DestUIDs sg)) j))) \<and>
   (AssertSorted t = Inr () \<longleftrightarrow>
      \<not> (\<exists>sg \<in> set (nodes t).
         (\<exists>j. unsorted_pair (GetUids (SrcUIDs sg)) j) \<or>
         (\<exists>j. unsorted_pair (GetUids (DestUIDs sg)) j))) \<and>
   ((\<forall>sg \<in> set (nodes t). node_sorted sg) \<longrightarrow>
      AssertSorted t = Inr () \<and> (\<forall>sub \<in> set (nodes t). AssertSorted (Some sub) = Inr ()))"
proof -
  let ?viol = "\<exists>sg \<in> set (nodes t).
         (\<exists>j. unsorted_pair (GetUids (SrcUIDs sg)) j) \<or>
         (\<exists>j. unsorted_pair (GetUids (DestUIDs sg)) j)"
  have viol: "?viol \<longleftrightarrow> \<not> (\<forall>sg \<in> set (nodes t). node_sorted sg)"
    by (simp add: unsorted_node_iff [symmetric] has_unsorted_pair_iff)
  have ok: "AssertSorted t = Inr () \<longleftrightarrow> \<not> ?viol"
    by (simp only: viol AssertSorted_ok_iff(1) not_not)
  have fatal: "(\<exists>m. AssertSorted t = Inl (Fatal m)) \<longleftrightarrow> ?viol"
  proof
    assume "\<exists>m. AssertSorted t = Inl (Fatal m)"
    then have "AssertSorted t \<noteq> Inr ()" by auto
    with ok show ?viol by blast
  next
    assume ?viol
    with ok have "AssertSorted t \<noteq> Inr ()" by blast
    then obtain e where e: "AssertSorted t = Inl e"
      by (cases "AssertSorted t") auto
    from AssertSorted_failure(1) [OF e] obtain m where "e = Fatal m" by blast
    with e show "\<exists>m. AssertSorted t = Inl (Fatal m)" by blast
  qed
  have sub: "\<forall>sub \<in> set (nodes t). AssertSorted (Some sub) = Inr ()"
    if all: "\<forall>sg \<in> set (nodes t). node_sorted sg"
  proof
    fix sub assume "sub \<in> set (nodes t)"
    then have "set (nodes (Some sub)) \<subseteq> set (nodes t)"
      by (rule nodes_subtree(1))
    with all have "\<forall>sg \<in> set (nodes (Some sub)). node_sorted sg" by blast
    then show "AssertSorted (Some sub) = Inr ()"
      by (simp only: AssertSorted_ok_iff(1))
  qed
  from fatal ok sub show ?thesis
    by (simp only: AssertSorted_ok_iff(1)) blast
qed

theorem AssertSorted_reports_iff_unsorted_witness:
  "list_all node_sorted (nodes (Some (SubGraph ''forum'' (Some \<lparr>Uids = [1, 5, 9]\<rparr>) None
        [Some (SubGraph ''thread'' (Some \<lparr>Uids = [2, 4]\<rparr>) (Some \<lparr>Uids = [10, 11]\<rparr>) [])]))) \<and>
   AssertSorted (Some (SubGraph ''forum'' (Some \<lparr>Uids = [1, 5, 9]\<rparr>) None
        [Some (SubGraph ''thread'' (Some \<lparr>Uids = [2, 4]\<rparr>) (Some \<lparr>Uids = [10, 11]\<rparr>) [])])) = Inr () \<and>
   AssertSorted (Some (SubGraph ''thread'' (Some \<lparr>Uids = [2, 4]\<rparr>) (Some \<lparr>Uids = [10, 11]\<rparr>) [])) = Inr () \<and>
   unsorted_pair (GetUids (DestUIDs (SubGraph ''thread'' (Some \<lparr>Uids = [2, 4]\<rparr>) (Some \<lparr>Uids = [11, 10]\<rparr>) []))) 0 \<and>
   (\<exists>m. AssertSorted (Some (SubGraph ''forum'' (Some \<lparr>Uids = [1, 5, 9]\<rparr>) None
        [Some (SubGraph ''thread'' (Some \<lparr>Uids = [2, 4]\<rparr>) (Some \<lparr>Uids = [11, 10]\<rparr>) [])])) = Inl (Fatal m))"
proof -
  let ?good = "Some (SubGraph ''forum'' (Some \<lparr>Uids = [1, 5, 9]\<rparr>) None
        [Some (SubGraph ''thread'' (Some \<lparr>Uids = [2, 4]\<rparr>) (Some \<lparr>Uids = [10, 11]\<rparr>) [])])"
  let ?leaf = "SubGraph ''thread'' (Some \<lparr>Uids = [2, 4]\<rparr>) (Some \<lparr>Uids = [11, 10]\<rparr>) []"
  let ?bad = "Some (SubGraph ''forum'' (Some \<lparr>Uids = [1, 5, 9]\<rparr>) None [Some ?leaf])"
  have all: "list_all node_sorted (nodes ?good)"
    by (simp add: node_sorted_def GetUids_def)
  then have sorted: "\<forall>sg \<in> set (nodes ?good). node_sorted sg"
    by (simp only: list_all_iff)
  have pair: "unsorted_pair (GetUids (DestUIDs ?leaf)) 0"
    by (simp add: unsorted_pair_def GetUids_def)
  have leaf: "?leaf \<in> set (nodes ?bad)"
    by simp
  from pair leaf have viol: "\<exists>sg \<in> set (nodes ?bad).
         (\<exists>j. unsorted_pair (GetUids (SrcUIDs sg)) j) \<or>
         (\<exists>j. unsorted_pair (GetUids (DestUIDs sg)) j)"
    by blast
  from AssertSorted_reports_iff_unsorted [of ?good] sorted
  have good: "AssertSorted ?good = Inr ()"
    and subs: "\<forall>sub \<in> set (nodes ?good). AssertSorted (Some sub) = Inr ()"
    by blast+
  have "SubGraph ''thread'' (Some \<lparr>Uids = [2, 4]\<rparr>) (Some \<lparr>Uids = [10, 11]\<rparr>) [] \<in> set (nodes ?good)"
    by simp
  with subs have sub: "AssertSorted (Some (SubGraph ''thread'' (Some \<lparr>Uids = [2, 4]\<rparr>)
      (Some \<lparr>Uids = [10, 11]\<rparr>) [])) = Inr ()"
    by (rule bspec)
  from AssertSorted_reports_iff_unsorted [of ?bad] viol
  have bad: "\<exists>m. AssertSorted ?bad = Inl (Fatal m)"
    by blast
  from all good sub pair bad show ?thesis
    by blast
qed


section \<open>The failure message\<close>

lemma short_list_sorted:
  "length us \<le> 1 \<Longrightarrow> \<not> has_unsorted_pair us"
  by (auto simp: has_unsorted_pair_def unsorted_pair_def)

lemma unsorted_list_length:
  "has_unsorted_pair us \<Longrightarrow> 2 \<le> length us"
  by (auto simp: has_unsorted_pair_def unsorted_pair_def)


lemma example_violation_fails:
  "AssertSorted example_violation = Inl (Fatal ''dest uid list not sorted: [11 10]'')"
proof -
  have "fmt_not_sorted ''dest uid'' [11, 10] = ''dest uid list not sorted: [11 10]''"
    by (simp add: fmt_not_sorted_def fmt_v_uids_def fmt_d.simps)
  then show ?thesis
    by (simp add: example_violation_def AssertUidListSorted_eq GetUids_def
          has_unsorted_pair_eval)
qed

lemma sublist_singleton_mem: "sublist [c] ys \<Longrightarrow> c \<in> set ys"
proof -
  assume "sublist [c] ys"
  then have "set [c] \<subseteq> set ys" by (rule set_mono_sublist)
  then show ?thesis by simp
qed

text \<open>
  Claim C2 as stated fails: the message does not name the violating index. For the list
  7, 3 the first violating pair is at index 0, and the message holds neither the digit 0
  of that index nor the digit 1 of the later element's index.
\<close>

theorem AssertSorted_message_lacks_index:
  "unsorted_pair (GetUids (Some \<lparr>Uids = [7, 3]\<rparr>)) 0 \<and>
   AssertUidListSorted (Some \<lparr>Uids = [7, 3]\<rparr>) ''src uid'' =
     Inl (Fatal ''src uid list not sorted: [7 3]'') \<and>
   \<not> sublist (fmt_d 0) ''src uid list not sorted: [7 3]'' \<and>
   \<not> sublist (fmt_d 1) ''src uid list not sorted: [7 3]''"
proof -
  have p: "unsorted_pair (GetUids (Some \<lparr>Uids = [7, 3]\<rparr>)) 0"
    by (simp add: unsorted_pair_def GetUids_def)
  then have "has_unsorted_pair (GetUids (Some \<lparr>Uids = [7, 3]\<rparr>))"
    unfolding has_unsorted_pair_iff ..
  then have "AssertUidListSorted (Some \<lparr>Uids = [7, 3]\<rparr>) ''src uid'' =
     Inl (Fatal (fmt_not_sorted ''src uid'' (GetUids (Some \<lparr>Uids = [7, 3]\<rparr>))))"
    by (simp only: AssertUidListSorted_eq if_True)
  moreover have "fmt_v_uids (GetUids (Some \<lparr>Uids = [7, 3]\<rparr>)) = ''[7 3]''"
    by (simp add: GetUids_def fmt_v_uids_def fmt_d.simps)
  ultimately have m: "AssertUidListSorted (Some \<lparr>Uids = [7, 3]\<rparr>) ''src uid'' =
     Inl (Fatal ''src uid list not sorted: [7 3]'')"
    by (simp only: fmt_not_sorted_def append.simps)
  have d0: "fmt_d 0 = ''0''" and d1: "fmt_d 1 = ''1''"
    by (simp_all add: fmt_d.simps)
  have c0: "CHR ''0'' \<notin> set ''src uid list not sorted: [7 3]''"
    and c1: "CHR ''1'' \<notin> set ''src uid list not sorted: [7 3]''"
    by simp_all
  have n0: "\<not> sublist (fmt_d 0) ''src uid list not sorted: [7 3]''"
  proof
    assume "sublist (fmt_d 0) ''src uid list not sorted: [7 3]''"
    then have "sublist [CHR ''0''] ''src uid list not sorted: [7 3]''"
      by (simp only: d0)
    then have "CHR ''0'' \<in> set ''src uid list not sorted: [7 3]''"
      by (rule sublist_singleton_mem)
    with c0 show False ..
  qed
  have n1: "\<not> sublist (fmt_d 1) ''src uid list not sorted: [7 3]''"
  proof
    assume "sublist (fmt_d 1) ''src uid list not sorted: [7 3]''"
    then have "sublist [CHR ''1''] ''src uid list not sorted: [7 3]''"
      by (simp only: d1)
    then have "CHR ''1'' \<in> set ''src uid list not sorted: [7 3]''"
      by (rule sublist_singleton_mem)
    with c1 show False ..
  qed
  from p m n0 n1 show ?thesis
    by (intro conjI)
qed

text \<open>
  Claim C2, as amended. When a list has an adjacent pair out of order, the validator of
  one list fails with the message \<^verbatim>\<open><tag> list not sorted: <list>\<close>: the tag it was given,
  the fixed phrase and the full list. The loop gives this one message from whichever index
  it starts, so the message does not depend on where the first violation is. A failure of
  the tree validator is this message for some node of the tree, with the tag \<^verbatim>\<open>src uid\<close>
  for its source list or \<^verbatim>\<open>dest uid\<close> for its destination list.
\<close>

theorem AssertSorted_message:
  "(has_unsorted_pair (GetUids pl) \<longrightarrow>
      AssertUidListSorted pl msg =
        Inl (Fatal (msg @ '' list not sorted: '' @ fmt_v_uids (GetUids pl)))) \<and>
   (unsorted_pair (GetUids pl) j \<and> i \<le> j \<longrightarrow>
      AssertUidListSorted_loop i pl msg =
        Inl (Fatal (msg @ '' list not sorted: '' @ fmt_v_uids (GetUids pl)))) \<and>
   (AssertSorted t = Inl e \<longrightarrow>
      (\<exists>sg \<in> set (nodes t).
         (has_unsorted_pair (GetUids (SrcUIDs sg)) \<and>
          e = Fatal (''src uid'' @ '' list not sorted: '' @ fmt_v_uids (GetUids (SrcUIDs sg)))) \<or>
         (has_unsorted_pair (GetUids (DestUIDs sg)) \<and>
          e = Fatal (''dest uid'' @ '' list not sorted: '' @ fmt_v_uids (GetUids (DestUIDs sg))))))"
proof -
  have one: "AssertUidListSorted pl msg = Inl (Fatal (fmt_not_sorted msg (GetUids pl)))"
    if "has_unsorted_pair (GetUids pl)"
    using that by (simp add: AssertUidListSorted_eq)
  have from_i: "AssertUidListSorted_loop i pl msg = Inl (Fatal (fmt_not_sorted msg (GetUids pl)))"
    if "unsorted_pair (GetUids pl) j \<and> i \<le> j"
  proof -
    from that have "i \<le> j \<and> j + 1 < length (GetUids pl)"
      and "\<not> GetUids pl ! j < GetUids pl ! (j + 1)"
      by (simp_all add: unsorted_pair_def not_less)
    then have "\<not> (\<forall>j. i \<le> j \<and> j + 1 < length (GetUids pl)
        \<longrightarrow> GetUids pl ! j < GetUids pl ! (j + 1))"
      by blast
    then show ?thesis
      by (simp only: AssertUidListSorted_loop_eq if_False)
  qed
  have tree: "\<exists>sg \<in> set (nodes t).
         (has_unsorted_pair (GetUids (SrcUIDs sg)) \<and>
          e = Fatal (fmt_not_sorted ''src uid'' (GetUids (SrcUIDs sg)))) \<or>
         (has_unsorted_pair (GetUids (DestUIDs sg)) \<and>
          e = Fatal (fmt_not_sorted ''dest uid'' (GetUids (DestUIDs sg))))"
    if "AssertSorted t = Inl e"
    using that by (rule AssertSorted_failure(1))
  from one from_i tree show ?thesis
    unfolding fmt_not_sorted_def by blast
qed

theorem AssertSorted_message_witness:
  "has_unsorted_pair (GetUids (Some \<lparr>Uids = [11, 10]\<rparr>)) \<and>
   AssertUidListSorted (Some \<lparr>Uids = [11, 10]\<rparr>) ''dest uid'' =
     Inl (Fatal ''dest uid list not sorted: [11 10]'') \<and>
   unsorted_pair (GetUids (Some \<lparr>Uids = [1, 2, 2]\<rparr>)) 1 \<and>
   AssertUidListSorted_loop 0 (Some \<lparr>Uids = [1, 2, 2]\<rparr>) ''src uid'' =
     Inl (Fatal ''src uid list not sorted: [1 2 2]'') \<and>
   AssertSorted example_violation = Inl (Fatal ''dest uid list not sorted: [11 10]'') \<and>
   (\<exists>sg \<in> set (nodes example_violation).
      (has_unsorted_pair (GetUids (SrcUIDs sg)) \<and>
       Fatal ''dest uid list not sorted: [11 10]'' =
         Fatal (''src uid'' @ '' list not sorted: '' @ fmt_v_uids (GetUids (SrcUIDs sg)))) \<or>
      (has_unsorted_pair (GetUids (DestUIDs sg)) \<and>
       Fatal ''dest uid list not sorted: [11 10]'' =
         Fatal (''dest uid'' @ '' list not sorted: '' @ fmt_v_uids (GetUids (DestUIDs sg)))))"
proof -
  have p1: "unsorted_pair (GetUids (Some \<lparr>Uids = [11, 10]\<rparr>)) 0"
    by (simp add: unsorted_pair_def GetUids_def)
  then have h1: "has_unsorted_pair (GetUids (Some \<lparr>Uids = [11, 10]\<rparr>))"
    unfolding has_unsorted_pair_iff ..
  have h2: "unsorted_pair (GetUids (Some \<lparr>Uids = [1, 2, 2]\<rparr>)) 1"
    by (simp add: unsorted_pair_def GetUids_def)
  have r1: "fmt_v_uids (GetUids (Some \<lparr>Uids = [11, 10]\<rparr>)) = ''[11 10]''"
    by (simp add: GetUids_def fmt_v_uids_def fmt_d.simps)
  have r2: "fmt_v_uids (GetUids (Some \<lparr>Uids = [1, 2, 2]\<rparr>)) = ''[1 2 2]''"
    by (simp add: GetUids_def fmt_v_uids_def fmt_d.simps)
  from AssertSorted_message [where pl = "Some \<lparr>Uids = [11, 10]\<rparr>" and msg = "''dest uid''"] h1
  have "AssertUidListSorted (Some \<lparr>Uids = [11, 10]\<rparr>) ''dest uid'' =
     Inl (Fatal (''dest uid'' @ '' list not sorted: '' @
       fmt_v_uids (GetUids (Some \<lparr>Uids = [11, 10]\<rparr>))))"
    by blast
  then have a: "AssertUidListSorted (Some \<lparr>Uids = [11, 10]\<rparr>) ''dest uid'' =
     Inl (Fatal ''dest uid list not sorted: [11 10]'')"
    by (simp only: r1 append.simps)
  from AssertSorted_message [where pl = "Some \<lparr>Uids = [1, 2, 2]\<rparr>" and msg = "''src uid''"
      and i = 0 and j = 1] h2
  have "AssertUidListSorted_loop 0 (Some \<lparr>Uids = [1, 2, 2]\<rparr>) ''src uid'' =
     Inl (Fatal (''src uid'' @ '' list not sorted: '' @
       fmt_v_uids (GetUids (Some \<lparr>Uids = [1, 2, 2]\<rparr>))))"
    by blast
  then have b: "AssertUidListSorted_loop 0 (Some \<lparr>Uids = [1, 2, 2]\<rparr>) ''src uid'' =
     Inl (Fatal ''src uid list not sorted: [1 2 2]'')"
    by (simp only: r2 append.simps)
  note AssertSorted_message [where t = example_violation
      and e = "Fatal ''dest uid list not sorted: [11 10]''", THEN conjunct2, THEN conjunct2]
  from this example_violation_fails
  have c: "\<exists>sg \<in> set (nodes example_violation).
      (has_unsorted_pair (GetUids (SrcUIDs sg)) \<and>
       Fatal ''dest uid list not sorted: [11 10]'' =
         Fatal (''src uid'' @ '' list not sorted: '' @ fmt_v_uids (GetUids (SrcUIDs sg)))) \<or>
      (has_unsorted_pair (GetUids (DestUIDs sg)) \<and>
       Fatal ''dest uid list not sorted: [11 10]'' =
         Fatal (''dest uid'' @ '' list not sorted: '' @ fmt_v_uids (GetUids (DestUIDs sg))))"
    by (rule mp)
  from h1 a h2 b example_violation_fails c show ?thesis
    by (intro conjI)
qed

section \<open>Vacuous inputs\<close>

text \<open>
  Claim C4. The validator succeeds at once on an absent tree. A list of length 0 or 1
  (an absent list has length 0) passes the validator of one list whatever the tag, so
  a node all of whose lists are that short passes whatever its children do; and whenever
  the tree validator fails, the list it reports, at some node of the tree, has at least
  two elements.
\<close>

theorem AssertSorted_vacuous:
  "AssertSorted None = Inr () \<and>
   (length (GetUids pl) \<le> 1 \<longrightarrow> AssertUidListSorted pl msg = Inr ()) \<and>
   (length (GetUids (SrcUIDs sg)) \<le> 1 \<and> length (GetUids (DestUIDs sg)) \<le> 1 \<longrightarrow>
      AssertSorted (Some sg) = AssertSorted_range (Children sg)) \<and>
   (AssertSorted t = Inl e \<longrightarrow>
      (\<exists>n \<in> set (nodes t).
         (2 \<le> length (GetUids (SrcUIDs n)) \<and>
          e = Fatal (''src uid'' @ '' list not sorted: '' @ fmt_v_uids (GetUids (SrcUIDs n)))) \<or>
         (2 \<le> length (GetUids (DestUIDs n)) \<and>
          e = Fatal (''dest uid'' @ '' list not sorted: '' @ fmt_v_uids (GetUids (DestUIDs n))))))"
proof -
  have list: "AssertUidListSorted pl msg = Inr ()" if "length (GetUids pl) \<le> 1"
    using short_list_sorted [OF that] by (simp add: AssertUidListSorted_eq)
  have node: "AssertSorted (Some sg) = AssertSorted_range (Children sg)"
    if "length (GetUids (SrcUIDs sg)) \<le> 1 \<and> length (GetUids (DestUIDs sg)) \<le> 1"
    using that by (simp only: AssertSorted_Some_eq short_list_sorted if_False)
  have tree: "\<exists>n \<in> set (nodes t).
         (2 \<le> length (GetUids (SrcUIDs n)) \<and>
          e = Fatal (fmt_not_sorted ''src uid'' (GetUids (SrcUIDs n)))) \<or>
         (2 \<le> length (GetUids (DestUIDs n)) \<and>
          e = Fatal (fmt_not_sorted ''dest uid'' (GetUids (DestUIDs n))))"
    if "AssertSorted t = Inl e"
    using AssertSorted_failure(1) [OF that] unsorted_list_length by blast
  have "AssertSorted None = Inr ()"
    by simp
  with list node tree show ?thesis
    unfolding fmt_not_sorted_def by blast
qed

theorem AssertSorted_vacuous_witness:
  "length (GetUids (Some \<lparr>Uids = [42]\<rparr>)) \<le> 1 \<and>
   AssertUidListSorted (Some \<lparr>Uids = [42]\<rparr>) ''src uid'' = Inr () \<and>
   length (GetUids (Some \<lparr>Uids = []\<rparr>)) \<le> 1 \<and>
   AssertUidListSorted (Some \<lparr>Uids = []\<rparr>) ''dest uid'' = Inr () \<and>
   AssertSorted (Some (SubGraph ''a'' (Some \<lparr>Uids = [42]\<rparr>) (Some \<lparr>Uids = []\<rparr>)
       [Some (SubGraph ''b'' (Some \<lparr>Uids = [3, 3]\<rparr>) None [])])) =
     AssertSorted_range [Some (SubGraph ''b'' (Some \<lparr>Uids = [3, 3]\<rparr>) None [])] \<and>
   AssertSorted example_violation = Inl (Fatal ''dest uid list not sorted: [11 10]'') \<and>
   (\<exists>n \<in> set (nodes example_violation).
      (2 \<le> length (GetUids (SrcUIDs n)) \<and>
       Fatal ''dest uid list not sorted: [11 10]'' =
         Fatal (''src uid'' @ '' list not sorted: '' @ fmt_v_uids (GetUids (SrcUIDs n)))) \<or>
      (2 \<le> length (GetUids (DestUIDs n)) \<and>
       Fatal ''dest uid list not sorted: [11 10]'' =
         Fatal (''dest uid'' @ '' list not sorted: '' @ fmt_v_uids (GetUids (DestUIDs n)))))"
proof -
  have h1: "length (GetUids (Some \<lparr>Uids = [42]\<rparr>)) \<le> 1"
    and h2: "length (GetUids (Some \<lparr>Uids = []\<rparr>)) \<le> 1"
    by (simp_all add: GetUids_def)
  from AssertSorted_vacuous [where pl = "Some \<lparr>Uids = [42]\<rparr>" and msg = "''src uid''"] h1
  have a: "AssertUidListSorted (Some \<lparr>Uids = [42]\<rparr>) ''src uid'' = Inr ()"
    by blast
  from AssertSorted_vacuous [where pl = "Some \<lparr>Uids = []\<rparr>" and msg = "''dest uid''"] h2
  have b: "AssertUidListSorted (Some \<lparr>Uids = []\<rparr>) ''dest uid'' = Inr ()"
    by blast
  let ?sg = "SubGraph ''a'' (Some \<lparr>Uids = [42]\<rparr>) (Some \<lparr>Uids = []\<rparr>)
       [Some (SubGraph ''b'' (Some \<lparr>Uids = [3, 3]\<rparr>) None [])]"
  have "length (GetUids (SrcUIDs ?sg)) \<le> 1 \<and> length (GetUids (DestUIDs ?sg)) \<le> 1"
    by (simp add: GetUids_def)
  with AssertSorted_vacuous [where sg = ?sg]
  have "AssertSorted (Some ?sg) = AssertSorted_range (Children ?sg)"
    by blast
  then have c: "AssertSorted (Some ?sg) =
      AssertSorted_range [Some (SubGraph ''b'' (Some \<lparr>Uids = [3, 3]\<rparr>) None [])]"
    by (simp only: SubGraph.sel)
  note AssertSorted_vacuous [where t = example_violation
      and e = "Fatal ''dest uid list not sorted: [11 10]''", THEN conjunct2, THEN conjunct2,
      THEN conjunct2]
  from this example_violation_fails
  have d: "\<exists>n \<in> set (nodes example_violation).
      (2 \<le> length (GetUids (SrcUIDs n)) \<and>
       Fatal ''dest uid list not sorted: [11 10]'' =
         Fatal (''src uid'' @ '' list not sorted: '' @ fmt_v_uids (GetUids (SrcUIDs n)))) \<or>
      (2 \<le> length (GetUids (DestUIDs n)) \<and>
       Fatal ''dest uid list not sorted: [11 10]'' =
         Fatal (''dest uid'' @ '' list not sorted: '' @ fmt_v_uids (GetUids (DestUIDs n))))"
    by (rule mp)
  from h1 a h2 b c example_violation_fails d show ?thesis
    by (intro conjI)
qed

section \<open>Absent identifier lists\<close>

text \<open>
  Claim C9. For an absent list the accessor gives the empty sequence, so the loop guard
  is false at entry: the body, which holds the only comparison and the only reads of
  \<^verbatim>\<open>pl.Uids\<close>, is not entered, and the validator of one list succeeds. From any index and
  for any list the loop ends neither in a nil dereference nor in an index out of range:
  the reads are reached only for a present list with both indices in range. A node whose
  two lists are absent passes on to its children.
\<close>

theorem AssertUidListSorted_nil_safe:
  "GetUids None = [] \<and>
   \<not> (0 + 1 < length (GetUids None)) \<and>
   AssertUidListSorted_loop 0 None msg = Inr () \<and>
   AssertUidListSorted None msg = Inr () \<and>
   AssertUidListSorted_loop i pl msg \<noteq> Inl NilDereference \<and>
   AssertUidListSorted_loop i pl msg \<noteq> Inl IndexOutOfRange \<and>
   AssertUidListSorted pl msg \<noteq> Inl NilDereference \<and>
   AssertUidListSorted pl msg \<noteq> Inl IndexOutOfRange \<and>
   AssertSorted (Some (SubGraph attr None None chs)) = AssertSorted_range chs"
proof -
  have nil: "GetUids None = []"
    by (simp add: GetUids_def)
  then have guard: "\<not> (0 + 1 < length (GetUids None))"
    by simp
  from guard have loop: "AssertUidListSorted_loop 0 None m = Inr ()" for m
    by (subst AssertUidListSorted_loop.simps) (simp only: if_False)
  then have whole: "AssertUidListSorted None m = Inr ()" for m
    by (simp only: AssertUidListSorted_def)
  have safe: "AssertUidListSorted_loop k pl msg \<noteq> Inl NilDereference \<and>
      AssertUidListSorted_loop k pl msg \<noteq> Inl IndexOutOfRange" for k
    by (simp add: AssertUidListSorted_loop_eq)
  have node: "AssertSorted (Some (SubGraph attr None None chs)) = AssertSorted_range chs"
    by (simp add: whole)
  from nil guard loop [of msg] whole [of msg] safe [of i] safe [of 0] node show ?thesis
    by (simp only: AssertUidListSorted_def simp_thms)
qed

theorem AssertUidListSorted_nil_safe_witness:
  "AssertUidListSorted None ''src uid'' = Inr () \<and>
   AssertSorted (Some (SubGraph ''forum'' None None [])) = Inr ()"
proof -
  from AssertUidListSorted_nil_safe [where msg = "''src uid''" and attr = "''forum''" and chs = "[]"]
  have a: "AssertUidListSorted None ''src uid'' = Inr ()"
    and "AssertSorted (Some (SubGraph ''forum'' None None [])) = AssertSorted_range []"
    by blast+
  then have "AssertSorted (Some (SubGraph ''forum'' None None [])) = Inr ()"
    by (simp only: AssertSorted_range.simps(1))
  with a show ?thesis ..
qed

section \<open>The quoted label\<close>

text \<open>
  The decoder takes the shortest encoding of a rune only, so encoding the rune gives
  back the bytes that it was read from. The lemmas up to \<open>encode4\<close> are the arithmetic of
  the bit fields.
\<close>

lemma digits2:
  fixes x y :: nat
  assumes "y < 0x40"
  shows "(x * 0x40 + y) div 0x40 = x" "(x * 0x40 + y) mod 0x40 = y"
  using assms by simp_all

lemma digits3:
  fixes x y z :: nat
  assumes "y < 0x40" "z < 0x40"
  shows "(x * 0x1000 + y * 0x40 + z) div 0x1000 = x"
    "(x * 0x1000 + y * 0x40 + z) div 0x40 mod 0x40 = y"
    "(x * 0x1000 + y * 0x40 + z) mod 0x40 = z"
proof -
  have a: "x * 0x1000 + y * 0x40 + z = (x * 0x40 + y) * 0x40 + z"
    by simp
  have b: "x * 0x1000 + y * 0x40 + z = x * 0x1000 + (y * 0x40 + z)"
    by simp
  from assms have c: "y * 0x40 + z < 0x1000"
    by simp
  show "(x * 0x1000 + y * 0x40 + z) div 0x1000 = x"
    unfolding b using c by simp
  show "(x * 0x1000 + y * 0x40 + z) div 0x40 mod 0x40 = y"
    by (simp only: a digits2(1) [OF assms(2)] digits2(2) [OF assms(1)])
  show "(x * 0x1000 + y * 0x40 + z) mod 0x40 = z"
    by (simp only: a digits2(2) [OF assms(2)])
qed

lemma digits4:
  fixes x y z u :: nat
  assumes "y < 0x40" "z < 0x40" "u < 0x40"
  shows "(x * 0x40000 + y * 0x1000 + z * 0x40 + u) div 0x40000 = x"
    "(x * 0x40000 + y * 0x1000 + z * 0x40 + u) div 0x1000 mod 0x40 = y"
    "(x * 0x40000 + y * 0x1000 + z * 0x40 + u) div 0x40 mod 0x40 = z"
    "(x * 0x40000 + y * 0x1000 + z * 0x40 + u) mod 0x40 = u"
proof -
  let ?r = "x * 0x40000 + y * 0x1000 + z * 0x40 + u"
  have a: "?r = ((x * 0x40 + y) * 0x40 + z) * 0x40 + u"
    by simp
  have b: "?r = (x * 0x40 + y) * 0x1000 + (z * 0x40 + u)"
    by simp
  have c: "?r = x * 0x40000 + (y * 0x1000 + z * 0x40 + u)"
    by simp
  from assms have d: "z * 0x40 + u < 0x1000" "y * 0x1000 + z * 0x40 + u < 0x40000"
    by simp_all
  show "?r div 0x40000 = x"
    unfolding c using d by simp
  have "(x * 0x40 + y) * 0x1000 + (z * 0x40 + u) = (x * 0x40 + y) * 0x1000 + z * 0x40 + u"
    by simp
  with digits3(1) [OF assms(2) assms(3), of "x * 0x40 + y"]
  have "?r div 0x1000 = x * 0x40 + y"
    by (simp only: b)
  then show "?r div 0x1000 mod 0x40 = y"
    by (simp only: digits2(2) [OF assms(1)])
  show "?r div 0x40 mod 0x40 = z"
    by (simp only: a digits2(1) [OF assms(3)] digits2(2) [OF assms(2)])
  show "?r mod 0x40 = u"
    by (simp only: a digits2(2) [OF assms(3)])
qed

lemma lead_bits:
  fixes x :: nat
  shows "x < 0x20 \<Longrightarrow> (0xC0 + x) mod 0x20 = x"
    and "x < 0x10 \<Longrightarrow> (0xE0 + x) mod 0x10 = x"
    and "x < 0x08 \<Longrightarrow> (0xF0 + x) mod 0x08 = x"
    and "x < 0x40 \<Longrightarrow> (0x80 + x) mod 0x40 = x"
  by (rule mod_nat_eqI; simp)+

lemma encode2:
  fixes b c1 :: nat
  assumes "0xC2 \<le> b" "b < 0xE0" "0x80 \<le> c1" "c1 \<le> 0xBF"
  defines "r \<equiv> (b mod 0x20) * 0x40 + c1 mod 0x40"
  shows "0x80 \<le> r" "r < 0x800" "0xC0 + r div 0x40 = b" "0x80 + r mod 0x40 = c1"
proof -
  define x y where "x = b - 0xC0" and "y = c1 - 0x80"
  from assms have x: "2 \<le> x" "x < 0x20" "b = 0xC0 + x" and y: "y < 0x40" "c1 = 0x80 + y"
    by (simp_all add: x_def y_def)
  from x y have r: "r = x * 0x40 + y"
    by (simp add: r_def lead_bits)
  from x y show "0x80 \<le> r" "r < 0x800"
    by (simp_all add: r)
  from x y show "0xC0 + r div 0x40 = b" "0x80 + r mod 0x40 = c1"
    by (simp_all only: r digits2 [OF y(1)])
qed

lemma encode3:
  fixes b c1 c2 :: nat
  assumes "0xE0 \<le> b" "b < 0xF0" "(if b = 0xE0 then 0xA0 else 0x80) \<le> c1"
    "c1 \<le> (if b = 0xED then 0x9F else 0xBF)" "0x80 \<le> c2" "c2 \<le> 0xBF"
  defines "r \<equiv> (b mod 0x10) * 0x1000 + (c1 mod 0x40) * 0x40 + c2 mod 0x40"
  shows "0x800 \<le> r" "r < 0x10000" "\<not> (0xD800 \<le> r \<and> r \<le> 0xDFFF)"
    "0xE0 + r div 0x1000 = b" "0x80 + r div 0x40 mod 0x40 = c1" "0x80 + r mod 0x40 = c2"
proof -
  define x y z where "x = b - 0xE0" and "y = c1 - 0x80" and "z = c2 - 0x80"
  from assms(3,4) have c1: "0x80 \<le> c1" "c1 \<le> 0xBF"
    by (simp_all split: if_splits)
  from assms(1,2) c1 assms(5,6)
  have x: "x < 0x10" "b = 0xE0 + x" and y: "y < 0x40" "c1 = 0x80 + y"
    and z: "z < 0x40" "c2 = 0x80 + z"
    by (simp_all add: x_def y_def z_def)
  from assms(3,4) x y have lo: "x = 0 \<longrightarrow> 0x20 \<le> y" and hi: "x = 0x0D \<longrightarrow> y < 0x20"
    by (simp_all split: if_splits)
  from x y z have r: "r = x * 0x1000 + y * 0x40 + z"
    by (simp add: r_def lead_bits)
  show "0x800 \<le> r"
  proof (cases "x = 0")
    case True
    with lo have "0x20 \<le> y" by simp
    then show ?thesis unfolding r by simp
  next
    case False
    then have "1 \<le> x" by simp
    then show ?thesis unfolding r by simp
  qed
  from x y z show "r < 0x10000"
    unfolding r by simp
  consider "x < 0x0D" | "x = 0x0D" | "0x0E \<le> x"
    by fastforce
  then show "\<not> (0xD800 \<le> r \<and> r \<le> 0xDFFF)"
  proof cases
    case 1
    with y z have "r < 0xD800" unfolding r by simp
    then show ?thesis by simp
  next
    case 2
    with hi have "y < 0x20" by simp
    with 2 z have "r < 0xD800" unfolding r by simp
    then show ?thesis by simp
  next
    case 3
    then have "0xE000 \<le> r" unfolding r by simp
    then show ?thesis by simp
  qed
  from x y z show "0xE0 + r div 0x1000 = b" "0x80 + r div 0x40 mod 0x40 = c1"
      "0x80 + r mod 0x40 = c2"
    by (simp_all only: r digits3 [OF y(1) z(1)])
qed

lemma encode4:
  fixes b c1 c2 c3 :: nat
  assumes "0xF0 \<le> b" "b < 0xF5" "(if b = 0xF0 then 0x90 else 0x80) \<le> c1"
    "c1 \<le> (if b = 0xF4 then 0x8F else 0xBF)" "0x80 \<le> c2" "c2 \<le> 0xBF"
    "0x80 \<le> c3" "c3 \<le> 0xBF"
  defines "r \<equiv> (b mod 0x08) * 0x40000 + (c1 mod 0x40) * 0x1000 + (c2 mod 0x40) * 0x40 +
                 c3 mod 0x40"
  shows "0x10000 \<le> r" "r \<le> 0x10FFFF"
    "0xF0 + r div 0x40000 = b" "0x80 + r div 0x1000 mod 0x40 = c1"
    "0x80 + r div 0x40 mod 0x40 = c2" "0x80 + r mod 0x40 = c3"
proof -
  define x y z u where "x = b - 0xF0" and "y = c1 - 0x80" and "z = c2 - 0x80"
    and "u = c3 - 0x80"
  from assms(3,4) have c1: "0x80 \<le> c1" "c1 \<le> 0xBF"
    by (simp_all split: if_splits)
  from assms(1,2) c1 assms(5-8)
  have x: "x < 0x05" "b = 0xF0 + x" and y: "y < 0x40" "c1 = 0x80 + y"
    and z: "z < 0x40" "c2 = 0x80 + z" and u: "u < 0x40" "c3 = 0x80 + u"
    by (simp_all add: x_def y_def z_def u_def)
  from assms(3,4) x y have lo: "x = 0 \<longrightarrow> 0x10 \<le> y" and hi: "x = 0x04 \<longrightarrow> y < 0x10"
    by (simp_all split: if_splits)
  from x y z u have r: "r = x * 0x40000 + y * 0x1000 + z * 0x40 + u"
    by (simp add: r_def lead_bits)
  show "0x10000 \<le> r"
  proof (cases "x = 0")
    case True
    with lo have "0x10 \<le> y" by simp
    then show ?thesis unfolding r by simp
  next
    case False
    then have "1 \<le> x" by simp
    then show ?thesis unfolding r by simp
  qed
  show "r \<le> 0x10FFFF"
  proof (cases "x = 0x04")
    case True
    with hi have "y < 0x10" by simp
    with True z u show ?thesis unfolding r by simp
  next
    case False
    with x have "x \<le> 0x03" by simp
    with y z u show ?thesis unfolding r by simp
  qed
  from x y z u show "0xF0 + r div 0x40000 = b" "0x80 + r div 0x1000 mod 0x40 = c1"
      "0x80 + r div 0x40 mod 0x40 = c2" "0x80 + r mod 0x40 = c3"
    by (simp_all only: r digits4 [OF y(1) z(1) u(1)])
qed

lemma DecodeRune_AppendRune:
  assumes "DecodeRune (c # cs) = Some (r, w)"
  shows "AppendRune r = c # take (w - 1) cs \<and>
         ((w = 1 \<and> r = of_char c \<and> r < 0x80) \<or>
          (0x80 \<le> r \<and> r \<le> 0x10FFFF \<and> \<not> (0xD800 \<le> r \<and> r \<le> 0xDFFF) \<and>
           list_all (\<lambda>b. 0x80 \<le> (of_char b :: nat)) (c # take (w - 1) cs)))"
proof -
  let ?b = "of_char c :: nat"
  consider (one) "?b < 0x80" | (bad) "0x80 \<le> ?b" "?b < 0xC2" | (two) "0xC2 \<le> ?b" "?b < 0xE0"
    | (three) "0xE0 \<le> ?b" "?b < 0xF0" | (four) "0xF0 \<le> ?b" "?b < 0xF5" | (high) "0xF5 \<le> ?b"
    by fastforce
  then show ?thesis
  proof cases
    case one
    with assms have "r = ?b" "w = 1"
      by simp_all
    with one show ?thesis
      by (simp add: AppendRune_def)
  next
    case bad
    with assms show ?thesis
      by simp
  next
    case two
    with assms obtain c1 cs' where cs: "cs = c1 # cs'"
      and c1: "0x80 \<le> (of_char c1 :: nat)" "(of_char c1 :: nat) \<le> 0xBF"
      and r: "r = (?b mod 0x20) * 0x40 + of_char c1 mod 0x40" and w: "w = 2"
      by (auto simp: Let_def continuation_def split: list.splits if_splits)
    note e = encode2 [OF two c1, folded r]
    from e(1,2) have "AppendRune r = [char_of (0xC0 + r div 0x40), char_of (0x80 + r mod 0x40)]"
      by (simp add: AppendRune_def)
    then have "AppendRune r = [c, c1]"
      by (simp only: e(3,4) char_of_char)
    with e(1,2) two c1 show ?thesis
      by (simp add: cs w)
  next
    case three
    with assms obtain c1 c2 cs' where cs: "cs = c1 # c2 # cs'"
      and c1: "(if ?b = 0xE0 then 0xA0 else 0x80) \<le> (of_char c1 :: nat)"
        "(of_char c1 :: nat) \<le> (if ?b = 0xED then 0x9F else 0xBF)"
      and c2: "0x80 \<le> (of_char c2 :: nat)" "(of_char c2 :: nat) \<le> 0xBF"
      and r: "r = (?b mod 0x10) * 0x1000 + (of_char c1 mod 0x40) * 0x40 + of_char c2 mod 0x40"
      and w: "w = 3"
      by (auto simp: Let_def continuation_def split: list.splits if_splits)
    note e = encode3 [OF three c1 c2, folded r]
    from c1(1) have c1': "0x80 \<le> (of_char c1 :: nat)"
      by (simp split: if_splits)
    from e(1,2,3)
    have "AppendRune r = [char_of (0xE0 + r div 0x1000), char_of (0x80 + r div 0x40 mod 0x40),
                          char_of (0x80 + r mod 0x40)]"
      by (auto simp add: AppendRune_def)
    then have "AppendRune r = [c, c1, c2]"
      by (simp only: e(4,5,6) char_of_char)
    with e(1,2,3) three c1' c2 show ?thesis
      by (simp add: cs w)
  next
    case four
    with assms obtain c1 c2 c3 cs' where cs: "cs = c1 # c2 # c3 # cs'"
      and c1: "(if ?b = 0xF0 then 0x90 else 0x80) \<le> (of_char c1 :: nat)"
        "(of_char c1 :: nat) \<le> (if ?b = 0xF4 then 0x8F else 0xBF)"
      and c2: "0x80 \<le> (of_char c2 :: nat)" "(of_char c2 :: nat) \<le> 0xBF"
      and c3: "0x80 \<le> (of_char c3 :: nat)" "(of_char c3 :: nat) \<le> 0xBF"
      and r: "r = (?b mod 0x08) * 0x40000 + (of_char c1 mod 0x40) * 0x1000 +
                  (of_char c2 mod 0x40) * 0x40 + of_char c3 mod 0x40"
      and w: "w = 4"
      by (auto simp: Let_def continuation_def split: list.splits if_splits)
    note e = encode4 [OF four c1 c2 c3, folded r]
    from c1(1) have c1': "0x80 \<le> (of_char c1 :: nat)"
      by (simp split: if_splits)
    from e(1,2)
    have "AppendRune r = [char_of (0xF0 + r div 0x40000), char_of (0x80 + r div 0x1000 mod 0x40),
                          char_of (0x80 + r div 0x40 mod 0x40), char_of (0x80 + r mod 0x40)]"
      by (simp add: AppendRune_def)
    then have "AppendRune r = [c, c1, c2, c3]"
      by (simp only: e(3,4,5,6) char_of_char)
    with e(1,2) four c1' c2 c3 show ?thesis
      by (simp add: cs w)
  next
    case high
    with assms show ?thesis
      by simp
  qed
qed


lemma char_of_eq:
  "(char_of (n :: nat) = c) = (n mod 256 = of_char c)"
  "(c = char_of (n :: nat)) = (n mod 256 = of_char c)"
proof -
  show a: "(char_of n = c) = (n mod 256 = of_char c)"
    by (simp add: char_of_eq_iff take_bit_eq_mod)
  have "(c = char_of n) = (char_of n = c)"
    by (rule eq_commute)
  then show "(c = char_of n) = (n mod 256 = of_char c)"
    by (simp only: a)
qed





text \<open>
  A rune that is printable, and neither the quote nor the backslash, is written as the
  bytes that it was read from.
\<close>

lemma appendEscapedRune_printable:
  assumes "DecodeRune (c # cs) = Some (r, w)" "IsPrint tab r" "r \<noteq> 0x22" "r \<noteq> 0x5C"
  shows "appendEscapedRune tab r = c # take (w - 1) cs"
  using DecodeRune_AppendRune [OF assms(1)] assms(2-4)
  by (simp add: appendEscapedRune_def)







section \<open>The dumper\<close>




lemma no_nil_range_iff: "no_nil_range ts \<longleftrightarrow> (\<forall>t \<in> set ts. no_nil t)"
  by (induction ts) auto



section \<open>The dumper on an absent node\<close>

text \<open>
  Claim C7. The claim is that a dump of an absent node writes nothing and does not fail.
  The code reads \<^verbatim>\<open>sg.Attr\<close> without the nil check that \<^verbatim>\<open>AssertSorted\<close> starts with: on
  an absent node the dump writes nothing and panics, and a tree with an absent child,
  which the validator accepts, makes the dump panic after the \<^verbatim>\<open>Child=\<close> line.
\<close>

theorem DebugSubgraph_nil_panics:
  "DebugSubgraph tab None indent = (Inl NilDereference, []) \<and>
   AssertSorted None = Inr () \<and>
   AssertSorted (Some (SubGraph ''a'' None None [None])) = Inr () \<and>
   DebugSubgraph tab (Some (SubGraph ''a'' None None [None])) indent =
     (Inl NilDereference,
      [fmt_Attr tab indent ''a'', fmt_SrcUids indent None, fmt_Child indent 0])"
proof -
  have "AssertUidListSorted None m = Inr ()" for m
    by (simp add: AssertUidListSorted_eq GetUids_def has_unsorted_pair_def)
  then have "AssertSorted (Some (SubGraph ''a'' None None [None])) = Inr ()"
    by simp
  moreover have "DebugSubgraph tab (Some (SubGraph ''a'' None None [None])) indent =
     (Inl NilDereference,
      [fmt_Attr tab indent ''a'', fmt_SrcUids indent None, fmt_Child indent 0])"
    by simp
  ultimately show ?thesis
    by simp
qed

section \<open>The dumper does not read the destination lists\<close>

lemma DebugSubgraph_clear_dest:
  "DebugSubgraph tab (clear_dest t) indent = DebugSubgraph tab t indent"
  "DebugSubgraph_range tab (clear_dest_range ts) i indent = DebugSubgraph_range tab ts i indent"
proof (induction tab t indent and tab ts i indent rule: DebugSubgraph_DebugSubgraph_range.induct)
  case (1 tab indent)
  show ?case by simp
next
  case (2 tab sg indent)
  then show ?case by simp
next
  case (3 tab i indent)
  show ?case by simp
next
  case (4 tab ch chs i indent)
  obtain r ws where d: "DebugSubgraph tab ch (indent @ indent_unit) = (r, ws)"
    by (cases "DebugSubgraph tab ch (indent @ indent_unit)")
  show ?case
  proof (cases r)
    case (Inl e)
    with d "4.IH"(1) show ?thesis by simp
  next
    case (Inr u)
    with d "4.IH"(1) "4.IH"(2) [OF d [symmetric] refl Inr] show ?thesis
      by simp
  qed
qed

text \<open>
  Claim C6. Two trees that are identical except in the destination lists of their nodes
  have the same dump, outcome and text: at every indentation, and in particular when one
  node's destination list alone is replaced.
\<close>

theorem DebugSubgraph_ignores_dest:
  "(clear_dest t = clear_dest t' \<longrightarrow> DebugSubgraph tab t indent = DebugSubgraph tab t' indent) \<and>
   DebugSubgraph tab (Some (SubGraph attr src dst chs)) indent =
     DebugSubgraph tab (Some (SubGraph attr src dst' chs)) indent"
proof -
  have "DebugSubgraph tab t indent = DebugSubgraph tab t' indent" if "clear_dest t = clear_dest t'"
  proof -
    have "DebugSubgraph tab t indent = DebugSubgraph tab (clear_dest t) indent"
      by (simp only: DebugSubgraph_clear_dest(1))
    also have "\<dots> = DebugSubgraph tab (clear_dest t') indent"
      by (simp only: that)
    also have "\<dots> = DebugSubgraph tab t' indent"
      by (simp only: DebugSubgraph_clear_dest(1))
    finally show ?thesis .
  qed
  moreover have "DebugSubgraph tab (Some (SubGraph attr src dst chs)) indent =
     DebugSubgraph tab (Some (SubGraph attr src dst' chs)) indent"
    by simp
  ultimately show ?thesis
    by blast
qed

theorem DebugSubgraph_ignores_dest_witness:
  "clear_dest (Some (SubGraph ''forum'' (Some \<lparr>Uids = [1, 5, 9]\<rparr>) None
       [Some (SubGraph ''thread'' (Some \<lparr>Uids = [2, 4]\<rparr>) (Some \<lparr>Uids = [10, 11]\<rparr>) [])])) =
   clear_dest (Some (SubGraph ''forum'' (Some \<lparr>Uids = [1, 5, 9]\<rparr>) (Some \<lparr>Uids = [8]\<rparr>)
       [Some (SubGraph ''thread'' (Some \<lparr>Uids = [2, 4]\<rparr>) (Some \<lparr>Uids = [11, 10]\<rparr>) [])])) \<and>
   DebugSubgraph example_table (Some (SubGraph ''forum'' (Some \<lparr>Uids = [1, 5, 9]\<rparr>) None
       [Some (SubGraph ''thread'' (Some \<lparr>Uids = [2, 4]\<rparr>) (Some \<lparr>Uids = [10, 11]\<rparr>) [])])) '''' =
   DebugSubgraph example_table (Some (SubGraph ''forum'' (Some \<lparr>Uids = [1, 5, 9]\<rparr>) (Some \<lparr>Uids = [8]\<rparr>)
       [Some (SubGraph ''thread'' (Some \<lparr>Uids = [2, 4]\<rparr>) (Some \<lparr>Uids = [11, 10]\<rparr>) [])])) ''''"
proof -
  let ?t = "Some (SubGraph ''forum'' (Some \<lparr>Uids = [1, 5, 9]\<rparr>) None
       [Some (SubGraph ''thread'' (Some \<lparr>Uids = [2, 4]\<rparr>) (Some \<lparr>Uids = [10, 11]\<rparr>) [])])"
  let ?t' = "Some (SubGraph ''forum'' (Some \<lparr>Uids = [1, 5, 9]\<rparr>) (Some \<lparr>Uids = [8]\<rparr>)
       [Some (SubGraph ''thread'' (Some \<lparr>Uids = [2, 4]\<rparr>) (Some \<lparr>Uids = [11, 10]\<rparr>) [])])"
  have h: "clear_dest ?t = clear_dest ?t'"
    by simp
  from DebugSubgraph_ignores_dest [where t = ?t and t' = ?t' and indent = "[]" and tab = example_table]
  have "clear_dest ?t = clear_dest ?t' \<longrightarrow> DebugSubgraph example_table ?t [] = DebugSubgraph example_table ?t' []"
    by (rule conjunct1)
  from this h have "DebugSubgraph example_table ?t [] = DebugSubgraph example_table ?t' []"
    by (rule mp)
  with h show ?thesis ..
qed

section \<open>Neither pass writes the store\<close>

lemma heap_enter [simp]: "heap (enter a s) = heap s" "stdout (enter a s) = stdout s"
  by (simp_all add: enter_def)

lemma heap_Printf [simp]: "heap (Printf w s) = heap s" "visited (Printf w s) = visited s"
  by (simp_all add: Printf_def)

lemma AssertSorted_heap_frame:
  "AssertSorted_heap n p s = Some (r, s') \<Longrightarrow> heap s' = heap s \<and> stdout s' = stdout s"
  "AssertSorted_heap_range n ps s = Some (r, s') \<Longrightarrow> heap s' = heap s \<and> stdout s' = stdout s"
proof (induction n p s and n ps s arbitrary: r s' and r s'
    rule: AssertSorted_heap_AssertSorted_heap_range.induct)
  case (1 sg s)
  then show ?case by simp
next
  case (2 n s)
  then show ?case by simp
next
  case (3 n a s)
  let ?s1 = "enter a s"
  show ?case
  proof (cases "AssertUidListSorted (struct_SrcUIDs (heap ?s1 a)) ''src uid''")
    case (Inl e)
    with "3.prems" show ?thesis by (auto simp: Let_def)
  next
    case src: (Inr u)
    show ?thesis
    proof (cases "AssertUidListSorted (struct_DestUIDs (heap ?s1 a)) ''dest uid''")
      case (Inl e)
      with src "3.prems" show ?thesis by (auto simp: Let_def)
    next
      case dst: (Inr v)
      with src "3.prems"
      have "AssertSorted_heap_range n (struct_Children (heap ?s1 a)) ?s1 = Some (r, s')"
        by (simp add: Let_def)
      from "3.IH" [OF refl src dst this] show ?thesis by simp
    qed
  qed
next
  case (4 n s)
  then show ?case by simp
next
  case (5 n ch chs s)
  from "5.prems" obtain r1 s1 where first: "AssertSorted_heap n ch s = Some (r1, s1)"
    by (cases "AssertSorted_heap n ch s") auto
  from "5.IH"(1) [OF first] have s1: "heap s1 = heap s \<and> stdout s1 = stdout s" .
  show ?case
  proof (cases r1)
    case (Inl e)
    with first "5.prems" s1 show ?thesis by auto
  next
    case (Inr u)
    with first "5.prems" have "AssertSorted_heap_range n chs s1 = Some (r, s')"
      by simp
    from "5.IH"(2) [OF first refl Inr this] s1 show ?thesis by simp
  qed
qed

lemma DebugSubgraph_heap_frame:
  "DebugSubgraph_heap tab n p indent s = Some (r, s') \<Longrightarrow> heap s' = heap s"
  "DebugSubgraph_heap_range tab n a len i indent s = Some (r, s') \<Longrightarrow> heap s' = heap s"
proof (induction tab n p indent s and tab n a len i indent s arbitrary: r s' and r s'
    rule: DebugSubgraph_heap_DebugSubgraph_heap_range.induct)
  case (1 tab sg indent s)
  then show ?case by simp
next
  case (2 tab n indent s)
  then show ?case by simp
next
  case (3 tab n a indent s)
  let ?s0 = "enter a s"
  let ?s1 = "Printf (fmt_Attr tab indent (struct_Attr (heap ?s0 a))) ?s0"
  let ?s2 = "Printf (fmt_SrcUids indent (struct_SrcUIDs (heap ?s1 a))) ?s1"
  from "3.prems"
  have "DebugSubgraph_heap_range tab n a (length (struct_Children (heap ?s2 a))) 0 indent ?s2 =
      Some (r, s')"
    by (simp add: Let_def)
  from "3.IH" [OF refl refl refl this] show ?case by simp
next
  case (4 tab n a len i indent s)
  let ?s1 = "Printf (fmt_Child indent i) s"
  note unfold = DebugSubgraph_heap_range.simps [of tab n a len i indent s]
  show ?case
  proof (cases "i < len")
    case False
    with "4.prems" show ?thesis by (auto simp: unfold)
  next
    case True
    show ?thesis
    proof (cases "i < length (struct_Children (heap ?s1 a))")
      case False
      with True "4.prems" show ?thesis by (auto simp: unfold Let_def)
    next
      case inb: True
      let ?call = "DebugSubgraph_heap tab n (struct_Children (heap ?s1 a) ! i) (indent @ indent_unit) ?s1"
      from True inb "4.prems" obtain r1 s1 where first: "?call = Some (r1, s1)"
        by (cases ?call) (auto simp: unfold Let_def)
      from "4.IH"(1) [OF True refl inb first] have s1: "heap s1 = heap s" by simp
      show ?thesis
      proof (cases r1)
        case (Inl e)
        with True inb first "4.prems" s1 show ?thesis by (auto simp: unfold Let_def)
      next
        case (Inr u)
        with True inb first "4.prems"
        have "DebugSubgraph_heap_range tab n a len (i + 1) indent s1 = Some (r, s')"
          by (simp add: unfold Let_def)
        from "4.IH"(2) [OF True refl inb first refl Inr this] s1 show ?thesis by simp
      qed
    qed
  qed
qed

section \<open>The store model against the tree model\<close>

lemma visits_upto_Cons:
  "visits_upto r vs as \<Longrightarrow> visits_upto r (a # vs) (a # as)"
  by (simp add: visits_upto_def)

lemma visits_upto_fail:
  "prefix vs as \<Longrightarrow> visits_upto (Inl e) vs as"
  by (simp add: visits_upto_def)

lemma visits_upto_append:
  "visits_upto r vs bs \<Longrightarrow> visits_upto r (as @ vs) (as @ bs)"
  by (simp add: visits_upto_def)

lemma visits_upto_prefix:
  "visits_upto r vs as \<Longrightarrow> prefix vs as"
  by (simp add: visits_upto_def)

lemma load_tree_Some:
  assumes "load_tree (Suc n) h (Some a) = Some (t, as)"
  obtains ts bs where "load_trees n h (struct_Children (h a)) = Some (ts, bs)"
    and "t = Some (SubGraph (struct_Attr (h a)) (struct_SrcUIDs (h a)) (struct_DestUIDs (h a)) ts)"
    and "as = a # bs"
  using assms by (auto split: option.splits)

lemma load_trees_Cons:
  assumes "load_trees n h (p # ps) = Some (ts, as)"
  obtains t as1 ts' as2 where "load_tree n h p = Some (t, as1)"
    and "load_trees n h ps = Some (ts', as2)" and "ts = t # ts'" and "as = as1 @ as2"
  using assms by (auto split: option.splits)

text \<open>
  On a store that holds the tree \<open>t\<close> below \<open>p\<close> within the depth \<open>n\<close>, the validator with
  fuel \<open>n\<close> returns, with the outcome of the tree model, and changes the trace only.
\<close>

lemma AssertSorted_heap_refines:
  "load_tree n (heap s) p = Some (t, as) \<Longrightarrow>
     \<exists>vs. AssertSorted_heap n p s = Some (AssertSorted t, s\<lparr>visited := visited s @ vs\<rparr>) \<and>
          visits_upto (AssertSorted t) vs as"
  "load_trees n (heap s) ps = Some (ts, as) \<Longrightarrow>
     \<exists>vs. AssertSorted_heap_range n ps s =
            Some (AssertSorted_range ts, s\<lparr>visited := visited s @ vs\<rparr>) \<and>
          visits_upto (AssertSorted_range ts) vs as"
proof (induction n p s and n ps s arbitrary: t as and ts as
    rule: AssertSorted_heap_AssertSorted_heap_range.induct)
  case (1 sg s)
  then show ?case by simp
next
  case (2 n s)
  then show ?case by (simp add: visits_upto_def)
next
  case (3 n a s)
  let ?s1 = "enter a s"
  let ?c = "heap s a"
  from "3.prems" obtain ts bs
    where kids: "load_trees n (heap s) (struct_Children ?c) = Some (ts, bs)"
      and t: "t = Some (SubGraph (struct_Attr ?c) (struct_SrcUIDs ?c) (struct_DestUIDs ?c) ts)"
      and as: "as = a # bs"
    by (rule load_tree_Some)
  show ?case
  proof (cases "AssertUidListSorted (struct_SrcUIDs ?c) ''src uid''")
    case (Inl e)
    then have "AssertSorted_heap (Suc n) (Some a) s = Some (AssertSorted t, s\<lparr>visited := visited s @ [a]\<rparr>)"
      by (simp add: t Let_def enter_def)
    moreover have "visits_upto (AssertSorted t) [a] as"
      using Inl by (simp add: t as visits_upto_def)
    ultimately show ?thesis by blast
  next
    case src: (Inr u)
    show ?thesis
    proof (cases "AssertUidListSorted (struct_DestUIDs ?c) ''dest uid''")
      case (Inl e)
      with src have "AssertSorted_heap (Suc n) (Some a) s =
          Some (AssertSorted t, s\<lparr>visited := visited s @ [a]\<rparr>)"
        by (simp add: t Let_def enter_def)
      moreover have "visits_upto (AssertSorted t) [a] as"
        using src Inl by (simp add: t as visits_upto_def)
      ultimately show ?thesis by blast
    next
      case dst: (Inr v)
      have "load_trees n (heap ?s1) (struct_Children (heap ?s1 a)) = Some (ts, bs)"
        using kids by simp
      from "3.IH" [OF refl _ _ this] src dst
      obtain vs where run: "AssertSorted_heap_range n (struct_Children ?c) ?s1 =
            Some (AssertSorted_range ts, ?s1\<lparr>visited := visited ?s1 @ vs\<rparr>)"
        and vs: "visits_upto (AssertSorted_range ts) vs bs"
        by auto
      from src dst have same: "AssertSorted t = AssertSorted_range ts"
        by (simp add: t)
      from src dst run have "AssertSorted_heap (Suc n) (Some a) s =
          Some (AssertSorted t, s\<lparr>visited := visited s @ a # vs\<rparr>)"
        by (simp add: same Let_def enter_def)
      moreover from vs have "visits_upto (AssertSorted t) (a # vs) as"
        unfolding same as by (rule visits_upto_Cons)
      ultimately show ?thesis by blast
    qed
  qed
next
  case (4 n s)
  then show ?case by (simp add: visits_upto_def)
next
  case (5 n ch chs s)
  from "5.prems" obtain t as1 ts' as2
    where one: "load_tree n (heap s) ch = Some (t, as1)"
      and rest: "load_trees n (heap s) chs = Some (ts', as2)"
      and ts: "ts = t # ts'" and as: "as = as1 @ as2"
    by (rule load_trees_Cons)
  from "5.IH"(1) [OF one] obtain vs1
    where run1: "AssertSorted_heap n ch s = Some (AssertSorted t, s\<lparr>visited := visited s @ vs1\<rparr>)"
      and vs1: "visits_upto (AssertSorted t) vs1 as1"
    by blast
  show ?case
  proof (cases "AssertSorted t")
    case (Inl e)
    with run1 have "AssertSorted_heap_range n (ch # chs) s =
        Some (AssertSorted_range ts, s\<lparr>visited := visited s @ vs1\<rparr>)"
      by (simp add: ts)
    moreover from vs1 have "prefix vs1 as1"
      by (rule visits_upto_prefix)
    then have "prefix vs1 as"
      unfolding as by (rule prefix_prefix)
    then have "visits_upto (AssertSorted_range ts) vs1 as"
      using Inl by (simp add: ts visits_upto_def)
    ultimately show ?thesis by blast
  next
    case (Inr u)
    with vs1 have all1: "vs1 = as1"
      by (simp add: visits_upto_def)
    let ?s1 = "s\<lparr>visited := visited s @ vs1\<rparr>"
    have "load_trees n (heap ?s1) chs = Some (ts', as2)"
      using rest by simp
    from "5.IH"(2) [OF run1 refl Inr this] obtain vs2
      where run2: "AssertSorted_heap_range n chs ?s1 =
          Some (AssertSorted_range ts', ?s1\<lparr>visited := visited ?s1 @ vs2\<rparr>)"
        and vs2: "visits_upto (AssertSorted_range ts') vs2 as2"
      by blast
    from Inr have same: "AssertSorted_range ts = AssertSorted_range ts'"
      by (simp add: ts)
    from run1 run2 Inr have "AssertSorted_heap_range n (ch # chs) s =
        Some (AssertSorted_range ts, s\<lparr>visited := visited s @ vs1 @ vs2\<rparr>)"
      by (simp add: same)
    moreover from vs2 have "visits_upto (AssertSorted_range ts) (vs1 @ vs2) as"
      unfolding same as all1 by (rule visits_upto_append)
    ultimately show ?thesis by blast
  qed
qed

text \<open>
  The same for the dumper: the outcome is that of the tree model, and the texts it
  writes are appended to standard output.
\<close>

lemma DebugSubgraph_heap_refines:
  "load_tree n (heap s) p = Some (t, as) \<Longrightarrow>
     \<exists>vs. DebugSubgraph_heap tab n p indent s =
            Some (fst (DebugSubgraph tab t indent),
                  s\<lparr>stdout := stdout s @ snd (DebugSubgraph tab t indent),
                    visited := visited s @ vs\<rparr>) \<and>
          visits_upto (fst (DebugSubgraph tab t indent)) vs as"
  "load_trees n (heap s) (drop i (struct_Children (heap s a))) = Some (ts, as) \<Longrightarrow>
   len = length (struct_Children (heap s a)) \<Longrightarrow>
     \<exists>vs. DebugSubgraph_heap_range tab n a len i indent s =
            Some (fst (DebugSubgraph_range tab ts i indent),
                  s\<lparr>stdout := stdout s @ snd (DebugSubgraph_range tab ts i indent),
                    visited := visited s @ vs\<rparr>) \<and>
          visits_upto (fst (DebugSubgraph_range tab ts i indent)) vs as"
proof (induction tab n p indent s and tab n a len i indent s arbitrary: t as and ts as
    rule: DebugSubgraph_heap_DebugSubgraph_heap_range.induct)
  case (1 tab sg indent s)
  then show ?case by simp
next
  case (2 tab n indent s)
  then show ?case by (simp add: visits_upto_def)
next
  case (3 tab n a indent s)
  let ?c = "heap s a"
  let ?s0 = "enter a s"
  let ?s1 = "Printf (fmt_Attr tab indent (struct_Attr (heap ?s0 a))) ?s0"
  let ?s2 = "Printf (fmt_SrcUids indent (struct_SrcUIDs (heap ?s1 a))) ?s1"
  from "3.prems" obtain ts bs
    where kids: "load_trees n (heap s) (struct_Children ?c) = Some (ts, bs)"
      and t: "t = Some (SubGraph (struct_Attr ?c) (struct_SrcUIDs ?c) (struct_DestUIDs ?c) ts)"
      and as: "as = a # bs"
    by (rule load_tree_Some)
  let ?r = "fst (DebugSubgraph_range tab ts 0 indent)"
  let ?ws = "snd (DebugSubgraph_range tab ts 0 indent)"
  have "load_trees n (heap ?s2) (drop 0 (struct_Children (heap ?s2 a))) = Some (ts, bs)"
    using kids by simp
  from "3.IH" [OF refl refl refl this refl]
  obtain vs where run: "DebugSubgraph_heap_range tab n a (length (struct_Children (heap ?s2 a))) 0 indent ?s2 =
        Some (?r, ?s2\<lparr>stdout := stdout ?s2 @ ?ws, visited := visited ?s2 @ vs\<rparr>)"
    and vs: "visits_upto ?r vs bs"
    by blast
  have model: "DebugSubgraph tab t indent =
      (?r, fmt_Attr tab indent (struct_Attr ?c) # fmt_SrcUids indent (struct_SrcUIDs ?c) # ?ws)"
    by (simp add: t split_beta)
  have "DebugSubgraph_heap tab (Suc n) (Some a) indent s =
      DebugSubgraph_heap_range tab n a (length (struct_Children (heap ?s2 a))) 0 indent ?s2"
    by (simp add: Let_def)
  also note run
  also have "?s2\<lparr>stdout := stdout ?s2 @ ?ws, visited := visited ?s2 @ vs\<rparr> =
      s\<lparr>stdout := stdout s @ snd (DebugSubgraph tab t indent), visited := visited s @ a # vs\<rparr>"
    by (simp add: model Printf_def enter_def)
  finally have "DebugSubgraph_heap tab (Suc n) (Some a) indent s =
      Some (fst (DebugSubgraph tab t indent),
            s\<lparr>stdout := stdout s @ snd (DebugSubgraph tab t indent), visited := visited s @ a # vs\<rparr>)"
    by (simp add: model)
  moreover from vs have "visits_upto (fst (DebugSubgraph tab t indent)) (a # vs) as"
    unfolding as model fst_conv by (rule visits_upto_Cons)
  ultimately show ?case by blast
next
  case (4 tab n a len i indent s)
  let ?cs = "struct_Children (heap s a)"
  let ?s1 = "Printf (fmt_Child indent i) s"
  note unfold = DebugSubgraph_heap_range.simps [of tab n a len i indent s]
  note len = \<open>len = length ?cs\<close>
  show ?case
  proof (cases "i < len")
    case False
    with len "4.prems"(1) have "ts = []" and "as = []"
      by simp_all
    with False show ?thesis
      by (simp add: unfold visits_upto_def)
  next
    case True
    then have inb: "i < length (struct_Children (heap ?s1 a))"
      by (simp add: len)
    from True len have "drop i ?cs = ?cs ! i # drop (Suc i) ?cs"
      by (simp add: Cons_nth_drop_Suc)
    with "4.prems"(1)
    have "load_trees n (heap s) (?cs ! i # drop (Suc i) ?cs) = Some (ts, as)"
      by (simp only:)
    then obtain t as1 ts' as2
      where one: "load_tree n (heap s) (?cs ! i) = Some (t, as1)"
        and rest: "load_trees n (heap s) (drop (Suc i) ?cs) = Some (ts', as2)"
        and ts: "ts = t # ts'" and as: "as = as1 @ as2"
      by (rule load_trees_Cons)
    let ?ind = "indent @ indent_unit"
    let ?r1 = "fst (DebugSubgraph tab t ?ind)"
    let ?w1 = "snd (DebugSubgraph tab t ?ind)"
    have "load_tree n (heap ?s1) (struct_Children (heap ?s1 a) ! i) = Some (t, as1)"
      using one by simp
    from "4.IH"(1) [OF True refl inb this] obtain vs1
      where run1: "DebugSubgraph_heap tab n (struct_Children (heap ?s1 a) ! i) ?ind ?s1 =
          Some (?r1, ?s1\<lparr>stdout := stdout ?s1 @ ?w1, visited := visited ?s1 @ vs1\<rparr>)"
        and vs1: "visits_upto ?r1 vs1 as1"
      by blast
    let ?s2 = "?s1\<lparr>stdout := stdout ?s1 @ ?w1, visited := visited ?s1 @ vs1\<rparr>"
    show ?thesis
    proof (cases ?r1)
      case (Inl e)
      then have model: "DebugSubgraph_range tab ts i indent = (Inl e, fmt_Child indent i # ?w1)"
        by (simp add: ts split_beta)
      from True inb run1 Inl have "DebugSubgraph_heap_range tab n a len i indent s = Some (Inl e, ?s2)"
        by (simp add: unfold Let_def)
      also have "?s2 = s\<lparr>stdout := stdout s @ snd (DebugSubgraph_range tab ts i indent),
          visited := visited s @ vs1\<rparr>"
        by (simp add: model Printf_def)
      finally have "DebugSubgraph_heap_range tab n a len i indent s =
          Some (fst (DebugSubgraph_range tab ts i indent),
                s\<lparr>stdout := stdout s @ snd (DebugSubgraph_range tab ts i indent),
                  visited := visited s @ vs1\<rparr>)"
        by (simp add: model)
      moreover from vs1 have "prefix vs1 as1"
        by (rule visits_upto_prefix)
      then have "prefix vs1 as"
        unfolding as by (rule prefix_prefix)
      then have "visits_upto (fst (DebugSubgraph_range tab ts i indent)) vs1 as"
        unfolding model fst_conv by (rule visits_upto_fail)
      ultimately show ?thesis by blast
    next
      case (Inr u)
      with vs1 have all1: "vs1 = as1"
        by (simp add: visits_upto_def)
      let ?r2 = "fst (DebugSubgraph_range tab ts' (i + 1) indent)"
      let ?w2 = "snd (DebugSubgraph_range tab ts' (i + 1) indent)"
      from Inr have model: "DebugSubgraph_range tab ts i indent = (?r2, fmt_Child indent i # ?w1 @ ?w2)"
        by (simp add: ts split_beta)
      have "load_trees n (heap ?s2) (drop (i + 1) (struct_Children (heap ?s2 a))) = Some (ts', as2)"
        using rest by simp
      moreover have "len = length (struct_Children (heap ?s2 a))"
        by (simp add: len)
      ultimately obtain vs2
        where run2: "DebugSubgraph_heap_range tab n a len (i + 1) indent ?s2 =
            Some (?r2, ?s2\<lparr>stdout := stdout ?s2 @ ?w2, visited := visited ?s2 @ vs2\<rparr>)"
          and vs2: "visits_upto ?r2 vs2 as2"
        using "4.IH"(2) [OF True refl inb run1 refl Inr] by blast
      from True inb run1 Inr have "DebugSubgraph_heap_range tab n a len i indent s =
          DebugSubgraph_heap_range tab n a len (i + 1) indent ?s2"
        by (simp add: unfold Let_def)
      also note run2
      also have "?s2\<lparr>stdout := stdout ?s2 @ ?w2, visited := visited ?s2 @ vs2\<rparr> =
          s\<lparr>stdout := stdout s @ snd (DebugSubgraph_range tab ts i indent),
            visited := visited s @ vs1 @ vs2\<rparr>"
        by (simp add: model Printf_def)
      finally have "DebugSubgraph_heap_range tab n a len i indent s =
          Some (fst (DebugSubgraph_range tab ts i indent),
                s\<lparr>stdout := stdout s @ snd (DebugSubgraph_range tab ts i indent),
                  visited := visited s @ vs1 @ vs2\<rparr>)"
        by (simp add: model)
      moreover from vs2 have "visits_upto (fst (DebugSubgraph_range tab ts i indent)) (vs1 @ vs2) as"
        unfolding model fst_conv as all1 by (rule visits_upto_append)
      ultimately show ?thesis by blast
    qed
  qed
qed

section \<open>Fuel\<close>

text \<open>More fuel reads the same tree.\<close>

lemma load_Suc:
  "load_tree n h p = Some x \<Longrightarrow> load_tree (Suc n) h p = Some x"
  "load_trees n h ps = Some y \<Longrightarrow> load_trees (Suc n) h ps = Some y"
proof (induction n h p and n h ps arbitrary: x and y rule: load_tree_load_trees.induct)
  case (1 h p)
  then show ?case by simp
next
  case (2 n h)
  then show ?case by simp
next
  case (3 n h a)
  from "3.prems" obtain ts bs where kids: "load_trees n h (struct_Children (h a)) = Some (ts, bs)"
    by (auto split: option.splits)
  from "3.IH" [OF kids] have "load_trees (Suc n) h (struct_Children (h a)) = Some (ts, bs)" .
  with kids "3.prems" show ?case by simp
next
  case (4 n h)
  then show ?case by simp
next
  case (5 n h p ps)
  from "5.prems" obtain t as1 where one: "load_tree n h p = Some (t, as1)"
    by (auto split: option.splits)
  with "5.prems" obtain ts as2 where rest: "load_trees n h ps = Some (ts, as2)"
    by (auto split: option.splits)
  from "5.IH"(1) [OF one] have "load_tree (Suc n) h p = Some (t, as1)" .
  moreover from "5.IH"(2) [OF one refl rest] have "load_trees (Suc n) h ps = Some (ts, as2)" .
  ultimately show ?case
    using one rest "5.prems" by simp
qed

lemma load_tree_mono:
  "load_tree n h p = Some x \<Longrightarrow> n \<le> m \<Longrightarrow> load_tree m h p = Some x"
proof (induction m)
  case 0
  then show ?case by simp
next
  case (Suc m)
  show ?case
  proof (cases "n = Suc m")
    case True
    with Suc.prems show ?thesis by simp
  next
    case False
    with Suc.prems have "n \<le> m" by simp
    from Suc.IH [OF Suc.prems(1) this] show ?thesis
      by (rule load_Suc(1))
  qed
qed

lemma load_trees_length:
  "load_trees n h ps = Some (ts, as) \<Longrightarrow> length ps = length ts"
proof (induction ps arbitrary: ts as)
  case Nil
  then show ?case by simp
next
  case (Cons p ps)
  from Cons.prems obtain t as1 ts' as2
    where rest: "load_trees n h ps = Some (ts', as2)" and ts: "ts = t # ts'"
    by (rule load_trees_Cons)
  from Cons.IH [OF rest] ts show ?case by simp
qed

text \<open>
  The addresses that \<open>load_tree\<close> lists are those of the nodes of the tree, one for each
  node and in the same order, and the node at each address is the node of the tree.
\<close>

lemma load_tree_nodes:
  "load_tree n h p = Some (t, as) \<Longrightarrow> list_all2 (node_at h) as (nodes t)"
  "load_trees n h ps = Some (ts, as) \<Longrightarrow> list_all2 (node_at h) as (nodes_range ts)"
proof (induction n h p and n h ps arbitrary: t as and ts as rule: load_tree_load_trees.induct)
  case (1 h p)
  then show ?case by simp
next
  case (2 n h)
  then show ?case by simp
next
  case (3 n h a)
  from "3.prems" obtain ts bs
    where kids: "load_trees n h (struct_Children (h a)) = Some (ts, bs)"
      and t: "t = Some (SubGraph (struct_Attr (h a)) (struct_SrcUIDs (h a)) (struct_DestUIDs (h a)) ts)"
      and as: "as = a # bs"
    by (rule load_tree_Some)
  from "3.IH" [OF kids] have "list_all2 (node_at h) bs (nodes_range ts)" .
  moreover from kids have "length (struct_Children (h a)) = length ts"
    by (rule load_trees_length)
  then have "node_at h a
      (SubGraph (struct_Attr (h a)) (struct_SrcUIDs (h a)) (struct_DestUIDs (h a)) ts)"
    by (simp add: node_at_def)
  ultimately show ?case
    by (simp add: t as)
next
  case (4 n h)
  then show ?case by simp
next
  case (5 n h p ps)
  from "5.prems" obtain t as1 ts' as2
    where one: "load_tree n h p = Some (t, as1)"
      and rest: "load_trees n h ps = Some (ts', as2)"
      and ts: "ts = t # ts'" and as: "as = as1 @ as2"
    by (rule load_trees_Cons)
  from "5.IH"(1) [OF one] "5.IH"(2) [OF one refl rest] show ?case
    by (simp add: ts as list_all2_appendI)
qed

section \<open>Every tree is held by some store\<close>

lemma load_trees_mono:
  "load_trees n h ps = Some y \<Longrightarrow> n \<le> m \<Longrightarrow> load_trees m h ps = Some y"
proof (induction m)
  case 0
  then show ?case by simp
next
  case (Suc m)
  show ?case
  proof (cases "n = Suc m")
    case True
    with Suc.prems show ?thesis by simp
  next
    case False
    with Suc.prems have "n \<le> m" by simp
    from Suc.IH [OF Suc.prems(1) this] show ?thesis
      by (rule load_Suc(2))
  qed
qed

text \<open>Reading a tree looks at the store only at the addresses of the tree's nodes.\<close>

lemma load_frame:
  "load_tree n h p = Some (t, as) \<Longrightarrow> (\<forall>a \<in> set as. h' a = h a) \<Longrightarrow>
     load_tree n h' p = Some (t, as)"
  "load_trees n h ps = Some (ts, as) \<Longrightarrow> (\<forall>a \<in> set as. h' a = h a) \<Longrightarrow>
     load_trees n h' ps = Some (ts, as)"
proof (induction n h p and n h ps arbitrary: t as and ts as rule: load_tree_load_trees.induct)
  case (1 h p)
  then show ?case by simp
next
  case (2 n h)
  then show ?case by simp
next
  case (3 n h a)
  from "3.prems"(1) obtain ts bs
    where kids: "load_trees n h (struct_Children (h a)) = Some (ts, bs)"
      and t: "t = Some (SubGraph (struct_Attr (h a)) (struct_SrcUIDs (h a)) (struct_DestUIDs (h a)) ts)"
      and as: "as = a # bs"
    by (rule load_tree_Some)
  from "3.prems"(2) as have here: "h' a = h a" and below: "\<forall>b \<in> set bs. h' b = h b"
    by simp_all
  from "3.IH" [OF kids below] have "load_trees n h' (struct_Children (h a)) = Some (ts, bs)" .
  then show ?case
    by (simp add: here t as)
next
  case (4 n h)
  then show ?case by simp
next
  case (5 n h p ps)
  from "5.prems"(1) obtain t as1 ts' as2
    where one: "load_tree n h p = Some (t, as1)"
      and rest: "load_trees n h ps = Some (ts', as2)"
      and ts: "ts = t # ts'" and as: "as = as1 @ as2"
    by (rule load_trees_Cons)
  from "5.prems"(2) as have f1: "\<forall>a \<in> set as1. h' a = h a" and f2: "\<forall>a \<in> set as2. h' a = h a"
    by simp_all
  from "5.IH"(1) [OF one f1] have "load_tree n h' p = Some (t, as1)" .
  moreover from "5.IH"(2) [OF one refl rest f2] have "load_trees n h' ps = Some (ts', as2)" .
  ultimately show ?case
    by (simp add: ts as)
qed

text \<open>
  \<open>store_tree\<close> writes at the addresses from \<open>k\<close> up to the next free one only, and the
  store it gives holds the tree there, at consecutive addresses in pre-order.
\<close>

lemma store_tree_holds:
  "store_tree t h k = (p, h', k') \<Longrightarrow>
     k \<le> k' \<and> (\<forall>a. a < k \<or> k' \<le> a \<longrightarrow> h' a = h a) \<and>
     (\<exists>n. load_tree n h' p = Some (t, [k ..< k']))"
  "store_trees ts h k = (ps, h', k') \<Longrightarrow>
     k \<le> k' \<and> (\<forall>a. a < k \<or> k' \<le> a \<longrightarrow> h' a = h a) \<and>
     (\<exists>n. load_trees n h' ps = Some (ts, [k ..< k']))"
proof (induction t h k and ts h k arbitrary: p h' k' and ps h' k'
    rule: store_tree_store_trees.induct)
  case (1 h k)
  then have "p = None" "h' = h" "k' = k" by simp_all
  moreover have "load_tree (Suc 0) h None = Some (None, [])" by simp
  then have "\<exists>n. load_tree n h None = Some (None, [])" ..
  ultimately show ?case by simp
next
  case (2 sg h k)
  obtain ps h1 k1 where kids: "store_trees (Children sg) h (k + 1) = (ps, h1, k1)"
    by (cases "store_trees (Children sg) h (k + 1)")
  let ?cell = "\<lparr>struct_Attr = Attr sg, struct_SrcUIDs = SrcUIDs sg,
      struct_DestUIDs = DestUIDs sg, struct_Children = ps\<rparr>"
  from kids "2.prems" have p: "p = Some k" and h': "h' = h1(k := ?cell)" and k': "k' = k1"
    by simp_all
  from "2.IH" [OF kids] obtain n
    where le: "k + 1 \<le> k1" and frame: "\<forall>a. a < k + 1 \<or> k1 \<le> a \<longrightarrow> h1 a = h a"
      and load: "load_trees n h1 ps = Some (Children sg, [k + 1 ..< k1])"
    by blast
  have "\<forall>a \<in> set [k + 1 ..< k1]. h' a = h1 a"
    by (simp add: h')
  with load have "load_trees n h' ps = Some (Children sg, [k + 1 ..< k1])"
    by (rule load_frame(2))
  moreover have "h' k = ?cell"
    by (simp add: h')
  ultimately have "load_tree (Suc n) h' (Some k) = Some (Some sg, k # [k + 1 ..< k1])"
    by simp
  moreover from le have "k # [k + 1 ..< k1] = [k ..< k1]"
    by (simp add: upt_conv_Cons)
  ultimately have "load_tree (Suc n) h' p = Some (Some sg, [k ..< k'])"
    by (simp add: p k')
  moreover from le have "k \<le> k'"
    by (simp add: k')
  moreover from frame le have "\<forall>a. a < k \<or> k' \<le> a \<longrightarrow> h' a = h a"
    by (simp add: h' k')
  ultimately show ?case by blast
next
  case (3 h k)
  then have "ps = []" "h' = h" "k' = k" by simp_all
  moreover have "load_trees 0 h [] = Some ([], [])" by simp
  then have "\<exists>n. load_trees n h [] = Some ([], [])" ..
  ultimately show ?case by simp
next
  case (4 ch chs h k)
  obtain q h1 k1 where one: "store_tree ch h k = (q, h1, k1)"
    by (cases "store_tree ch h k")
  obtain qs h2 k2 where rest: "store_trees chs h1 k1 = (qs, h2, k2)"
    by (cases "store_trees chs h1 k1")
  from one rest "4.prems" have ps: "ps = q # qs" and h': "h' = h2" and k': "k' = k2"
    by simp_all
  from "4.IH"(1) [OF one] obtain n1
    where le1: "k \<le> k1" and frame1: "\<forall>a. a < k \<or> k1 \<le> a \<longrightarrow> h1 a = h a"
      and load1: "load_tree n1 h1 q = Some (ch, [k ..< k1])"
    by blast
  from "4.IH"(2) [OF one [symmetric] refl rest] obtain n2
    where le2: "k1 \<le> k2" and frame2: "\<forall>a. a < k1 \<or> k2 \<le> a \<longrightarrow> h2 a = h1 a"
      and load2: "load_trees n2 h2 qs = Some (chs, [k1 ..< k2])"
    by blast
  from frame2 have "\<forall>a \<in> set [k ..< k1]. h2 a = h1 a"
    by simp
  with load1 have "load_tree n1 h2 q = Some (ch, [k ..< k1])"
    by (rule load_frame(1))
  then have a: "load_tree (max n1 n2) h2 q = Some (ch, [k ..< k1])"
    by (rule load_tree_mono) simp
  from load2 have b: "load_trees (max n1 n2) h2 qs = Some (chs, [k1 ..< k2])"
    by (rule load_trees_mono) simp
  from le1 le2 have "[k ..< k1] @ [k1 ..< k2] = [k ..< k2]"
    using upt_add_eq_append [of k k1 "k2 - k1"] by simp
  with a b have "load_trees (max n1 n2) h' ps = Some (ch # chs, [k ..< k'])"
    by (simp add: ps h' k')
  moreover from le1 le2 have "k \<le> k'"
    by (simp add: k')
  moreover from frame1 frame2 le1 le2 have "\<forall>a. a < k \<or> k' \<le> a \<longrightarrow> h' a = h a"
    by (auto simp: h' k')
  ultimately show ?case by blast
qed


section \<open>The example scenario\<close>

lemma example_load:
  "load_tree (Suc (Suc 0)) (heap example_machine) (Some 0) = Some (example_tree, [0, 1])"
  by (simp add: example_machine_def example_heap_def example_tree_def)

lemma example_AssertSorted: "AssertSorted example_tree = Inr ()"
  by (simp add: AssertSorted_ok_iff(1) example_tree_def node_sorted_def GetUids_def
        del: AssertSorted.simps)

lemma example_DebugSubgraph:
  "DebugSubgraph tab example_tree [] =
     (Inr (),
      [''Attr='' @ [CHR 0x22] @ ''forum'' @ [CHR 0x22, CHR 0x0A],
       ''  SrcUids=[1 5 9]'' @ [CHR 0x0A],
       ''  Child=0'' @ [CHR 0x0A],
       ''    Attr='' @ [CHR 0x22] @ ''thread'' @ [CHR 0x22, CHR 0x0A],
       ''      SrcUids=[2 4]'' @ [CHR 0x0A]])"
  by (simp add: example_tree_def fmt_Attr_def fmt_SrcUids_def fmt_Child_def fmt_q_def
        appendEscapedRune_def IsPrint_def AppendRune_def char_of_eq fmt_v_List_def fmt_v_uids_def fmt_d.simps nl_def indent_unit_def)

section \<open>Read-only passes\<close>

text \<open>
  Claim C8. Whenever a call of the validator or of the dumper returns, on whatever store,
  the store it leaves is the store it found: every field of every node is unchanged, so
  the tree read back below any pointer, to any depth, is the same. The validator leaves
  standard output unchanged as well.
\<close>

theorem passes_do_not_write:
  "(AssertSorted_heap n p s = Some (r, s') \<longrightarrow>
      heap s' = heap s \<and> stdout s' = stdout s \<and>
      load_tree m (heap s') q = load_tree m (heap s) q) \<and>
   (DebugSubgraph_heap tab n p indent s = Some (r', s'') \<longrightarrow>
      heap s'' = heap s \<and> load_tree m (heap s'') q = load_tree m (heap s) q)"
proof (intro conjI impI)
  assume run: "AssertSorted_heap n p s = Some (r, s')"
  from AssertSorted_heap_frame(1) [OF run]
  show "heap s' = heap s" and "stdout s' = stdout s"
    by simp_all
  then show "load_tree m (heap s') q = load_tree m (heap s) q"
    by (simp only:)
next
  assume run: "DebugSubgraph_heap tab n p indent s = Some (r', s'')"
  from DebugSubgraph_heap_frame(1) [OF run]
  show "heap s'' = heap s" .
  then show "load_tree m (heap s'') q = load_tree m (heap s) q"
    by (simp only:)
qed

theorem passes_do_not_write_witness:
  "AssertSorted_heap (Suc (Suc 0)) (Some 0) example_machine =
     Some (Inr (), example_machine\<lparr>visited := [0, 1]\<rparr>) \<and>
   heap (example_machine\<lparr>visited := [0, 1]\<rparr>) = heap example_machine \<and>
   DebugSubgraph_heap example_table (Suc (Suc 0)) (Some 0) [] example_machine =
     Some (Inr (), example_machine\<lparr>stdout := snd (DebugSubgraph example_table example_tree []),
       visited := [0, 1]\<rparr>) \<and>
   heap (example_machine\<lparr>stdout := snd (DebugSubgraph example_table example_tree []), visited := [0, 1]\<rparr>) =
     heap example_machine \<and>
   load_tree (Suc (Suc 0))
     (heap (example_machine\<lparr>stdout := snd (DebugSubgraph example_table example_tree []), visited := [0, 1]\<rparr>))
     (Some 0) = Some (example_tree, [0, 1])"
proof -
  let ?s' = "example_machine\<lparr>visited := [0, 1]\<rparr>"
  let ?s'' = "example_machine\<lparr>stdout := snd (DebugSubgraph example_table example_tree []), visited := [0, 1]\<rparr>"
  have run1: "AssertSorted_heap (Suc (Suc 0)) (Some 0) example_machine = Some (Inr (), ?s')"
    by (simp add: example_machine_def example_heap_def enter_def Let_def AssertUidListSorted_eq
          strictly_increasing_iff [symmetric] GetUids_def)
  have run2: "DebugSubgraph_heap example_table (Suc (Suc 0)) (Some 0) [] example_machine = Some (Inr (), ?s'')"
    by (simp add: example_machine_def example_heap_def example_tree_def enter_def Printf_def
          Let_def DebugSubgraph_heap_range.simps)
  from passes_do_not_write [where n = "Suc (Suc 0)" and p = "Some 0" and s = example_machine
      and r = "Inr ()" and s' = ?s']
  have a: "AssertSorted_heap (Suc (Suc 0)) (Some 0) example_machine = Some (Inr (), ?s') \<longrightarrow>
      heap ?s' = heap example_machine \<and> stdout ?s' = stdout example_machine \<and>
      load_tree (Suc (Suc 0)) (heap ?s') (Some 0) =
        load_tree (Suc (Suc 0)) (heap example_machine) (Some 0)"
    by (rule conjunct1)
  from a run1 have "heap ?s' = heap example_machine \<and> stdout ?s' = stdout example_machine \<and>
      load_tree (Suc (Suc 0)) (heap ?s') (Some 0) =
        load_tree (Suc (Suc 0)) (heap example_machine) (Some 0)"
    by (rule mp)
  then have h1: "heap ?s' = heap example_machine"
    by (rule conjunct1)
  from passes_do_not_write [where tab = example_table and n = "Suc (Suc 0)" and p = "Some 0" and indent = "[]"
      and s = example_machine and r' = "Inr ()" and s'' = ?s'' and m = "Suc (Suc 0)"
      and q = "Some 0"]
  have b: "DebugSubgraph_heap example_table (Suc (Suc 0)) (Some 0) [] example_machine = Some (Inr (), ?s'') \<longrightarrow>
      heap ?s'' = heap example_machine \<and>
      load_tree (Suc (Suc 0)) (heap ?s'') (Some 0) =
        load_tree (Suc (Suc 0)) (heap example_machine) (Some 0)"
    by (rule conjunct2)
  from b run2 have c: "heap ?s'' = heap example_machine \<and>
      load_tree (Suc (Suc 0)) (heap ?s'') (Some 0) =
        load_tree (Suc (Suc 0)) (heap example_machine) (Some 0)"
    by (rule mp)
  then have h2: "heap ?s'' = heap example_machine"
    by (rule conjunct1)
  from c have "load_tree (Suc (Suc 0)) (heap ?s'') (Some 0) =
        load_tree (Suc (Suc 0)) (heap example_machine) (Some 0)"
    by (rule conjunct2)
  then have l2: "load_tree (Suc (Suc 0)) (heap ?s'') (Some 0) = Some (example_tree, [0, 1])"
    by (simp only: example_load)
  from run1 h1 run2 h2 l2 show ?thesis
    by (intro conjI)
qed

section \<open>Termination\<close>

text \<open>
  Claim C10. Every tree is held by some store, without a shared node. When the store
  holds a finite tree below the pointer (\<open>load_tree\<close> reads it within the depth \<open>n\<close>),
  both passes return with the fuel \<open>n\<close> and with any larger fuel:
  the validator with the outcome of the tree model, the dumper with its outcome and its
  text. The nodes a pass enters are taken from the pre-order list of the tree's nodes, in
  order and without a gap, all of them when the pass returns normally; the address at
  each position of that list holds the node of the tree at that position, so each node
  of the tree is entered exactly once, and no address twice when no node is shared.
\<close>

theorem passes_terminate:
  "(\<exists>h q k bs. load_tree k h q = Some (t, bs) \<and> distinct bs) \<and>
   (load_tree n (heap s) p = Some (t, as) \<longrightarrow>
     (\<forall>m \<ge> n.
        (\<exists>vs. AssertSorted_heap m p s = Some (AssertSorted t, s\<lparr>visited := visited s @ vs\<rparr>) \<and>
              prefix vs as \<and> (AssertSorted t = Inr () \<longrightarrow> vs = as) \<and>
              (distinct as \<longrightarrow> distinct vs)) \<and>
        (\<exists>vs. DebugSubgraph_heap tab m p indent s =
                Some (fst (DebugSubgraph tab t indent),
                      s\<lparr>stdout := stdout s @ snd (DebugSubgraph tab t indent),
                        visited := visited s @ vs\<rparr>) \<and>
              prefix vs as \<and> (fst (DebugSubgraph tab t indent) = Inr () \<longrightarrow> vs = as) \<and>
              (distinct as \<longrightarrow> distinct vs))) \<and>
     length as = length (nodes t) \<and>
     list_all2 (node_at (heap s)) as (nodes t))"
  (is "?stored \<and> (?held \<longrightarrow> ?returns \<and> ?count \<and> ?at)")
proof (rule conjI)
  obtain q h k where "store_tree t (heap s) 0 = (q, h, k)"
    by (cases "store_tree t (heap s) 0")
  from store_tree_holds(1) [OF this] obtain m where "load_tree m h q = Some (t, [0 ..< k])"
    by blast
  moreover have "distinct [0 ..< k]"
    by simp
  ultimately show ?stored
    by blast
next
  show "?held \<longrightarrow> ?returns \<and> ?count \<and> ?at"
  proof (rule impI)
    assume load: ?held
    have runs: "(\<exists>vs. AssertSorted_heap m p s =
                  Some (AssertSorted t, s\<lparr>visited := visited s @ vs\<rparr>) \<and>
                prefix vs as \<and> (AssertSorted t = Inr () \<longrightarrow> vs = as) \<and>
                (distinct as \<longrightarrow> distinct vs)) \<and>
          (\<exists>vs. DebugSubgraph_heap tab m p indent s =
                  Some (fst (DebugSubgraph tab t indent),
                        s\<lparr>stdout := stdout s @ snd (DebugSubgraph tab t indent),
                          visited := visited s @ vs\<rparr>) \<and>
                prefix vs as \<and> (fst (DebugSubgraph tab t indent) = Inr () \<longrightarrow> vs = as) \<and>
                (distinct as \<longrightarrow> distinct vs))"
      if "n \<le> m" for m
    proof -
      from load that have more: "load_tree m (heap s) p = Some (t, as)"
        by (rule load_tree_mono)
      from AssertSorted_heap_refines(1) [OF more] obtain vs
        where run: "AssertSorted_heap m p s =
            Some (AssertSorted t, s\<lparr>visited := visited s @ vs\<rparr>)"
          and vs: "visits_upto (AssertSorted t) vs as"
        by blast
      from vs have "prefix vs as" and "AssertSorted t = Inr () \<longrightarrow> vs = as"
        by (simp_all add: visits_upto_def)
      moreover from \<open>prefix vs as\<close> have "distinct as \<longrightarrow> distinct vs"
        by (auto simp: prefix_def)
      moreover note run
      moreover from DebugSubgraph_heap_refines(1) [OF more] obtain ws
        where run': "DebugSubgraph_heap tab m p indent s =
                  Some (fst (DebugSubgraph tab t indent),
                        s\<lparr>stdout := stdout s @ snd (DebugSubgraph tab t indent),
                          visited := visited s @ ws\<rparr>)"
          and ws: "visits_upto (fst (DebugSubgraph tab t indent)) ws as"
        by blast
      from ws have "prefix ws as" and "fst (DebugSubgraph tab t indent) = Inr () \<longrightarrow> ws = as"
        by (simp_all add: visits_upto_def)
      moreover from \<open>prefix ws as\<close> have "distinct as \<longrightarrow> distinct ws"
        by (auto simp: prefix_def)
      moreover note run'
      ultimately show ?thesis by blast
    qed
    have ?returns
      by (intro allI impI) (rule runs)
    moreover from load have nodes: ?at
      by (rule load_tree_nodes(1))
    then have ?count
      by (rule list_all2_lengthD)
    moreover note nodes
    ultimately show "?returns \<and> ?count \<and> ?at"
      by (intro conjI)
  qed
qed

theorem passes_terminate_witness:
  "load_tree (Suc (Suc 0)) (heap example_machine) (Some 0) = Some (example_tree, [0, 1]) \<and>
   AssertSorted_heap 7 (Some 0) example_machine =
     Some (Inr (), example_machine\<lparr>visited := [0, 1]\<rparr>) \<and>
   DebugSubgraph_heap example_table 7 (Some 0) [] example_machine =
     Some (Inr (), example_machine\<lparr>stdout := snd (DebugSubgraph example_table example_tree []),
       visited := [0, 1]\<rparr>) \<and>
   distinct [0 :: addr, 1] \<and>
   length (nodes example_tree) = 2"
proof -
  note inst = passes_terminate [where tab = example_table and n = "Suc (Suc 0)" and s = example_machine and p = "Some 0"
      and t = example_tree and as = "[0, 1]" and indent = "[]"]
  from inst [THEN conjunct2] example_load
  have all: "(\<forall>m \<ge> Suc (Suc 0).
        (\<exists>vs. AssertSorted_heap m (Some 0) example_machine =
                Some (AssertSorted example_tree,
                      example_machine\<lparr>visited := visited example_machine @ vs\<rparr>) \<and>
              prefix vs [0, 1] \<and> (AssertSorted example_tree = Inr () \<longrightarrow> vs = [0, 1]) \<and>
              (distinct [0 :: addr, 1] \<longrightarrow> distinct vs)) \<and>
        (\<exists>vs. DebugSubgraph_heap example_table m (Some 0) [] example_machine =
                Some (fst (DebugSubgraph example_table example_tree []),
                      example_machine\<lparr>stdout := stdout example_machine @
                          snd (DebugSubgraph example_table example_tree []),
                        visited := visited example_machine @ vs\<rparr>) \<and>
              prefix vs [0, 1] \<and> (fst (DebugSubgraph example_table example_tree []) = Inr () \<longrightarrow> vs = [0, 1]) \<and>
              (distinct [0 :: addr, 1] \<longrightarrow> distinct vs))) \<and>
     length [0 :: addr, 1] = length (nodes example_tree) \<and>
     list_all2 (node_at (heap example_machine)) [0, 1] (nodes example_tree)"
    by (rule mp)
  have ok: "AssertSorted example_tree = Inr ()"
    by (rule example_AssertSorted)
  have ok': "fst (DebugSubgraph example_table example_tree []) = Inr ()"
    by (simp only: example_DebugSubgraph fst_conv)
  have empty: "stdout example_machine = []" "visited example_machine = []"
    by (simp_all add: example_machine_def)
  have "Suc (Suc 0) \<le> (7 :: nat)"
    by simp
  with all have seven:
    "(\<exists>vs. AssertSorted_heap 7 (Some 0) example_machine =
                Some (AssertSorted example_tree,
                      example_machine\<lparr>visited := visited example_machine @ vs\<rparr>) \<and>
              prefix vs [0, 1] \<and> (AssertSorted example_tree = Inr () \<longrightarrow> vs = [0, 1]) \<and>
              (distinct [0 :: addr, 1] \<longrightarrow> distinct vs)) \<and>
        (\<exists>vs. DebugSubgraph_heap example_table 7 (Some 0) [] example_machine =
                Some (fst (DebugSubgraph example_table example_tree []),
                      example_machine\<lparr>stdout := stdout example_machine @
                          snd (DebugSubgraph example_table example_tree []),
                        visited := visited example_machine @ vs\<rparr>) \<and>
              prefix vs [0, 1] \<and> (fst (DebugSubgraph example_table example_tree []) = Inr () \<longrightarrow> vs = [0, 1]) \<and>
              (distinct [0 :: addr, 1] \<longrightarrow> distinct vs))"
    by blast
  from seven ok have a: "AssertSorted_heap 7 (Some 0) example_machine =
     Some (Inr (), example_machine\<lparr>visited := [0, 1]\<rparr>)"
    by (auto simp: empty)
  from seven ok' have b: "DebugSubgraph_heap example_table 7 (Some 0) [] example_machine =
     Some (Inr (), example_machine\<lparr>stdout := snd (DebugSubgraph example_table example_tree []),
       visited := [0, 1]\<rparr>)"
    by (auto simp: empty)
  from all have "length (nodes example_tree) = 2"
    by simp
  moreover have "distinct [0 :: addr, 1]"
    by simp
  moreover note example_load a b
  ultimately show ?thesis
    by (intro conjI)
qed


section \<open>The shape of the dump\<close>

lemma fmt_indented:
  "fmt_Attr tab (indent @ concat (replicate d indent_unit)) x =
     indented indent (d, ''Attr='' @ fmt_q tab x)"
  "fmt_SrcUids (indent @ concat (replicate d indent_unit)) l =
     indented indent (d, ''  SrcUids='' @ fmt_v_List l)"
  "fmt_Child (indent @ concat (replicate d indent_unit)) i =
     indented indent (d, ''  Child='' @ fmt_d i)"
  by (simp_all add: fmt_Attr_def fmt_SrcUids_def fmt_Child_def indented_def nl_def
        indent_unit_def)

lemma units_commute: "concat (replicate d u) @ u = u @ concat (replicate d u)"
  by (induction d) simp_all

lemma layout_depth:
  "l \<in> set (spec_layout tab d t) \<Longrightarrow> d \<le> fst l"
  "l \<in> set (spec_layout_range tab d i ts) \<Longrightarrow> d \<le> fst l"
proof (induction tab d t and tab d i ts rule: spec_layout_spec_layout_range.induct)
  case (1 tab d)
  then show ?case by simp
next
  case (2 tab d sg)
  then show ?case by auto
next
  case (3 tab d i)
  then show ?case by simp
next
  case (4 tab d i ch chs)
  from "4.prems" consider "l = (d, ''  Child='' @ fmt_d i)" | "l \<in> set (spec_layout tab (d + 1) ch)"
    | "l \<in> set (spec_layout_range tab d (i + 1) chs)"
    by auto
  then show ?case
  proof cases
    case 1
    then show ?thesis by simp
  next
    case 2
    from "4.IH"(1) [OF this] show ?thesis by simp
  next
    case 3
    from "4.IH"(2) [OF this] show ?thesis .
  qed
qed

lemma layout_deeper: "filter (\<lambda>l. fst l = d) (spec_layout tab (Suc d) t) = []"
proof -
  have "\<forall>l \<in> set (spec_layout tab (Suc d) t). fst l \<noteq> d"
    using layout_depth(1) [of _ tab "Suc d" t] by fastforce
  then show ?thesis
    by (simp add: filter_empty_conv)
qed

text \<open>The lines at the depth of a node's children loop are its \<^verbatim>\<open>Child=\<close> lines.\<close>

lemma layout_range_level:
  "map snd (filter (\<lambda>l. fst l = d) (spec_layout_range tab d i ts)) =
     map (\<lambda>j. ''  Child='' @ fmt_d j) [i ..< i + length ts]"
proof (induction ts arbitrary: i)
  case Nil
  show ?case by simp
next
  case (Cons ch chs)
  have "i < i + length (ch # chs)"
    by simp
  then have "[i ..< i + length (ch # chs)] = i # [Suc i ..< i + length (ch # chs)]"
    by (rule upt_conv_Cons)
  then have "[i ..< i + length (ch # chs)] = i # [Suc i ..< Suc i + length chs]"
    by (simp del: upt_Suc)
  moreover have "map snd (filter (\<lambda>l. fst l = d) (spec_layout_range tab d (i + 1) chs)) =
      map (\<lambda>j. ''  Child='' @ fmt_d j) [Suc i ..< Suc i + length chs]"
    using Cons [of "i + 1"] by simp
  ultimately show ?case
    by (simp add: layout_deeper del: upt_Suc)
qed

text \<open>
  On a tree without an absent node the dump is the layout, each line behind the prefix
  and one indentation unit per level of depth.
\<close>

lemma DebugSubgraph_layout:
  "no_nil t \<Longrightarrow>
     DebugSubgraph tab t (indent @ concat (replicate d indent_unit)) =
       (Inr (), map (indented indent) (spec_layout tab d t))"
  "no_nil_range ts \<Longrightarrow>
     DebugSubgraph_range tab ts i (indent @ concat (replicate d indent_unit)) =
       (Inr (), map (indented indent) (spec_layout_range tab d i ts))"
proof (induction tab d t and tab d i ts rule: spec_layout_spec_layout_range.induct)
  case (1 tab d)
  then show ?case by simp
next
  case (2 tab d sg)
  let ?ind = "indent @ concat (replicate d indent_unit)"
  from "2.prems" have "no_nil_range (Children sg)" by simp
  from "2.IH" [OF this]
  have "DebugSubgraph_range tab (Children sg) 0 ?ind =
      (Inr (), map (indented indent) (spec_layout_range tab d 0 (Children sg)))" .
  then show ?case
    by (simp add: fmt_indented)
next
  case (3 tab d i)
  show ?case by simp
next
  case (4 tab d i ch chs)
  let ?ind = "indent @ concat (replicate d indent_unit)"
  from "4.prems" have ch: "no_nil ch" and chs: "no_nil_range chs" by simp_all
  have deeper: "?ind @ indent_unit = indent @ concat (replicate (d + 1) indent_unit)"
    by (simp add: units_commute)
  from "4.IH"(1) [OF ch]
  have one: "DebugSubgraph tab ch (?ind @ indent_unit) =
      (Inr (), map (indented indent) (spec_layout tab (d + 1) ch))"
    by (simp only: deeper)
  from "4.IH"(2) [OF chs]
  have rest: "DebugSubgraph_range tab chs (i + 1) ?ind =
      (Inr (), map (indented indent) (spec_layout_range tab d (i + 1) chs))" .
  from one rest show ?case
    by (simp add: fmt_indented)
qed

section \<open>Determinism of the dump\<close>

text \<open>
  Claim C5. On stores that hold the same tree below the pointer, whatever the addresses,
  the other nodes of the store and the text written before, the dumper has the same
  outcome and appends the same texts, those of the tree model, so the same bytes; a
  second call after the first, on the store the first has left, repeats them. The text is
  the pre-order layout of the tree with its children in stored order: on a tree without
  an absent node every line stands behind the prefix and four spaces per level of depth,
  and the lines at the level of a node are its two header lines and one \<^verbatim>\<open>Child=\<close>
  line per child, numbered from zero in stored order.
\<close>

theorem DebugSubgraph_deterministic:
  "(load_tree n (heap s) p = Some (t, as) \<and> load_tree n' (heap s') p' = Some (t, as') \<longrightarrow>
      (\<exists>s1 s1'. DebugSubgraph_heap tab n p indent s = Some (fst (DebugSubgraph tab t indent), s1) \<and>
                DebugSubgraph_heap tab n' p' indent s' = Some (fst (DebugSubgraph tab t indent), s1') \<and>
                stdout s1 = stdout s @ snd (DebugSubgraph tab t indent) \<and>
                stdout s1' = stdout s' @ snd (DebugSubgraph tab t indent))) \<and>
   (load_tree n (heap s) p = Some (t, as) \<longrightarrow>
      (\<exists>s1 s2. DebugSubgraph_heap tab n p indent s = Some (fst (DebugSubgraph tab t indent), s1) \<and>
               DebugSubgraph_heap tab n p indent s1 = Some (fst (DebugSubgraph tab t indent), s2) \<and>
               stdout s1 = stdout s @ snd (DebugSubgraph tab t indent) \<and>
               stdout s2 = stdout s1 @ snd (DebugSubgraph tab t indent))) \<and>
   (no_nil t \<longrightarrow>
      DebugSubgraph tab t indent =
        (Inr (), map (\<lambda>l. indent @ concat (replicate (fst l) ''    '') @ snd l @ [CHR 0x0A])
                  (spec_layout tab 0 t))) \<and>
   map snd (filter (\<lambda>l. fst l = d) (spec_layout tab d (Some sg))) =
     (''Attr='' @ fmt_q tab (Attr sg)) #
     (''  SrcUids='' @ fmt_v_List (SrcUIDs sg)) #
     map (\<lambda>i. ''  Child='' @ fmt_d i) [0 ..< length (Children sg)]"
proof -
  let ?r = "fst (DebugSubgraph tab t indent)"
  let ?ws = "snd (DebugSubgraph tab t indent)"
  have run: "\<exists>u1. DebugSubgraph_heap tab k q indent u = Some (?r, u1) \<and>
      stdout u1 = stdout u @ ?ws \<and> heap u1 = heap u"
    if "load_tree k (heap u) q = Some (t, bs)" for k u q bs
  proof -
    from DebugSubgraph_heap_refines(1) [OF that] obtain vs
      where "DebugSubgraph_heap tab k q indent u =
          Some (?r, u\<lparr>stdout := stdout u @ ?ws, visited := visited u @ vs\<rparr>)"
      by blast
    moreover have "stdout (u\<lparr>stdout := stdout u @ ?ws, visited := visited u @ vs\<rparr>) = stdout u @ ?ws"
      and "heap (u\<lparr>stdout := stdout u @ ?ws, visited := visited u @ vs\<rparr>) = heap u"
      by simp_all
    ultimately show ?thesis by blast
  qed
  have two: "\<exists>s1 s1'. DebugSubgraph_heap tab n p indent s = Some (?r, s1) \<and>
                DebugSubgraph_heap tab n' p' indent s' = Some (?r, s1') \<and>
                stdout s1 = stdout s @ ?ws \<and> stdout s1' = stdout s' @ ?ws"
    if "load_tree n (heap s) p = Some (t, as) \<and> load_tree n' (heap s') p' = Some (t, as')"
  proof -
    from that have a: "load_tree n (heap s) p = Some (t, as)"
      and b: "load_tree n' (heap s') p' = Some (t, as')"
      by simp_all
    from run [OF a] run [OF b] show ?thesis by blast
  qed
  have twice: "\<exists>s1 s2. DebugSubgraph_heap tab n p indent s = Some (?r, s1) \<and>
               DebugSubgraph_heap tab n p indent s1 = Some (?r, s2) \<and>
               stdout s1 = stdout s @ ?ws \<and> stdout s2 = stdout s1 @ ?ws"
    if a: "load_tree n (heap s) p = Some (t, as)"
  proof -
    from run [OF a] obtain s1 where first: "DebugSubgraph_heap tab n p indent s = Some (?r, s1)"
      and out1: "stdout s1 = stdout s @ ?ws" and same: "heap s1 = heap s"
      by blast
    from a same have "load_tree n (heap s1) p = Some (t, as)"
      by simp
    from run [OF this] obtain s2 where "DebugSubgraph_heap tab n p indent s1 = Some (?r, s2)"
      and "stdout s2 = stdout s1 @ ?ws"
      by blast
    with first out1 show ?thesis by blast
  qed
  have shape: "DebugSubgraph tab t indent = (Inr (), map (indented indent) (spec_layout tab 0 t))"
    if "no_nil t"
    using DebugSubgraph_layout(1) [OF that, of tab indent 0] by simp
  have level: "map snd (filter (\<lambda>l. fst l = d) (spec_layout tab d (Some sg))) =
     (''Attr='' @ fmt_q tab (Attr sg)) #
     (''  SrcUids='' @ fmt_v_List (SrcUIDs sg)) #
     map (\<lambda>i. ''  Child='' @ fmt_d i) [0 ..< length (Children sg)]"
    using layout_range_level [of d tab 0 "Children sg"] by simp
  have ind: "indented indent = (\<lambda>l. indent @ concat (replicate (fst l) ''    '') @ snd l @ [CHR 0x0A])"
    by (rule ext) (simp only: indented_def)
  from two twice shape level show ?thesis
    unfolding ind by (intro conjI impI)
qed

theorem DebugSubgraph_deterministic_witness:
  "load_tree (Suc (Suc 0)) (heap example_machine) (Some 0) = Some (example_tree, [0, 1]) \<and>
   no_nil example_tree \<and>
   (\<exists>s1 s2. DebugSubgraph_heap example_table (Suc (Suc 0)) (Some 0) [] example_machine = Some (Inr (), s1) \<and>
            DebugSubgraph_heap example_table (Suc (Suc 0)) (Some 0) [] s1 = Some (Inr (), s2) \<and>
            stdout s1 = snd (DebugSubgraph example_table example_tree []) \<and>
            stdout s2 = snd (DebugSubgraph example_table example_tree []) @ snd (DebugSubgraph example_table example_tree [])) \<and>
   snd (DebugSubgraph example_table example_tree []) =
     [''Attr='' @ [CHR 0x22] @ ''forum'' @ [CHR 0x22, CHR 0x0A],
      ''  SrcUids=[1 5 9]'' @ [CHR 0x0A],
      ''  Child=0'' @ [CHR 0x0A],
      ''    Attr='' @ [CHR 0x22] @ ''thread'' @ [CHR 0x22, CHR 0x0A],
      ''      SrcUids=[2 4]'' @ [CHR 0x0A]] \<and>
   DebugSubgraph example_table example_tree [] =
     (Inr (), map (\<lambda>l. [] @ concat (replicate (fst l) ''    '') @ snd l @ [CHR 0x0A])
               (spec_layout example_table 0 example_tree)) \<and>
   load_tree (Suc (Suc 0)) (heap (example_machine\<lparr>stdout := [''earlier'']\<rparr>)) (Some 0) =
     Some (example_tree, [0, 1]) \<and>
   (\<exists>s1 s1'. DebugSubgraph_heap example_table (Suc (Suc 0)) (Some 0) [] example_machine = Some (Inr (), s1) \<and>
      DebugSubgraph_heap example_table (Suc (Suc 0)) (Some 0) [] (example_machine\<lparr>stdout := [''earlier'']\<rparr>) =
        Some (Inr (), s1') \<and>
      stdout s1 = snd (DebugSubgraph example_table example_tree []) \<and>
      stdout s1' = ''earlier'' # snd (DebugSubgraph example_table example_tree []))"
proof -
  note inst = DebugSubgraph_deterministic [where tab = example_table and n = "Suc (Suc 0)" and s = example_machine
      and p = "Some 0" and t = example_tree and as = "[0, 1]" and indent = "[]"]
  have full: "no_nil example_tree"
    by (simp add: example_tree_def)
  have ok: "fst (DebugSubgraph example_table example_tree []) = Inr ()"
    by (simp only: example_DebugSubgraph fst_conv)
  have empty: "stdout example_machine = []"
    by (simp add: example_machine_def)
  from inst [THEN conjunct2, THEN conjunct1]
  have "load_tree (Suc (Suc 0)) (heap example_machine) (Some 0) = Some (example_tree, [0, 1]) \<longrightarrow>
      (\<exists>s1 s2. DebugSubgraph_heap example_table (Suc (Suc 0)) (Some 0) [] example_machine =
                 Some (fst (DebugSubgraph example_table example_tree []), s1) \<and>
               DebugSubgraph_heap example_table (Suc (Suc 0)) (Some 0) [] s1 =
                 Some (fst (DebugSubgraph example_table example_tree []), s2) \<and>
               stdout s1 = stdout example_machine @ snd (DebugSubgraph example_table example_tree []) \<and>
               stdout s2 = stdout s1 @ snd (DebugSubgraph example_table example_tree []))" .
  from this example_load
  have "\<exists>s1 s2. DebugSubgraph_heap example_table (Suc (Suc 0)) (Some 0) [] example_machine =
                 Some (fst (DebugSubgraph example_table example_tree []), s1) \<and>
               DebugSubgraph_heap example_table (Suc (Suc 0)) (Some 0) [] s1 =
                 Some (fst (DebugSubgraph example_table example_tree []), s2) \<and>
               stdout s1 = stdout example_machine @ snd (DebugSubgraph example_table example_tree []) \<and>
               stdout s2 = stdout s1 @ snd (DebugSubgraph example_table example_tree [])"
    by (rule mp)
  then have twice: "\<exists>s1 s2. DebugSubgraph_heap example_table (Suc (Suc 0)) (Some 0) [] example_machine = Some (Inr (), s1) \<and>
            DebugSubgraph_heap example_table (Suc (Suc 0)) (Some 0) [] s1 = Some (Inr (), s2) \<and>
            stdout s1 = snd (DebugSubgraph example_table example_tree []) \<and>
            stdout s2 = snd (DebugSubgraph example_table example_tree []) @ snd (DebugSubgraph example_table example_tree [])"
    unfolding ok empty by auto
  from inst [THEN conjunct2, THEN conjunct2, THEN conjunct1]
  have "no_nil example_tree \<longrightarrow>
      DebugSubgraph example_table example_tree [] =
        (Inr (), map (\<lambda>l. [] @ concat (replicate (fst l) ''    '') @ snd l @ [CHR 0x0A])
               (spec_layout example_table 0 example_tree))" .
  from this full have shape: "DebugSubgraph example_table example_tree [] =
        (Inr (), map (\<lambda>l. [] @ concat (replicate (fst l) ''    '') @ snd l @ [CHR 0x0A])
               (spec_layout example_table 0 example_tree))"
    by (rule mp)
  have lines: "snd (DebugSubgraph example_table example_tree []) =
     [''Attr='' @ [CHR 0x22] @ ''forum'' @ [CHR 0x22, CHR 0x0A],
      ''  SrcUids=[1 5 9]'' @ [CHR 0x0A],
      ''  Child=0'' @ [CHR 0x0A],
      ''    Attr='' @ [CHR 0x22] @ ''thread'' @ [CHR 0x22, CHR 0x0A],
      ''      SrcUids=[2 4]'' @ [CHR 0x0A]]"
    by (simp only: example_DebugSubgraph snd_conv)
  let ?later = "example_machine\<lparr>stdout := [''earlier'']\<rparr>"
  have load': "load_tree (Suc (Suc 0)) (heap ?later) (Some 0) = Some (example_tree, [0, 1])"
    using example_load by simp
  note DebugSubgraph_deterministic [where tab = example_table and n = "Suc (Suc 0)" and s = example_machine
      and p = "Some 0" and t = example_tree and as = "[0, 1]" and indent = "[]"
      and n' = "Suc (Suc 0)" and s' = ?later and p' = "Some 0" and as' = "[0, 1]",
      THEN conjunct1]
  from this conjI [OF example_load load']
  have "\<exists>s1 s1'. DebugSubgraph_heap example_table (Suc (Suc 0)) (Some 0) [] example_machine =
                 Some (fst (DebugSubgraph example_table example_tree []), s1) \<and>
               DebugSubgraph_heap example_table (Suc (Suc 0)) (Some 0) [] ?later =
                 Some (fst (DebugSubgraph example_table example_tree []), s1') \<and>
               stdout s1 = stdout example_machine @ snd (DebugSubgraph example_table example_tree []) \<and>
               stdout s1' = stdout ?later @ snd (DebugSubgraph example_table example_tree [])"
    by (rule mp)
  then have both: "\<exists>s1 s1'. DebugSubgraph_heap example_table (Suc (Suc 0)) (Some 0) [] example_machine =
        Some (Inr (), s1) \<and>
      DebugSubgraph_heap example_table (Suc (Suc 0)) (Some 0) [] ?later = Some (Inr (), s1') \<and>
      stdout s1 = snd (DebugSubgraph example_table example_tree []) \<and>
      stdout s1' = ''earlier'' # snd (DebugSubgraph example_table example_tree [])"
    unfolding ok empty by simp
  from example_load full twice lines shape load' both show ?thesis
    by (intro conjI)
qed

end
